theory Spec2Isabelle
  imports Complex_Main
begin

unbundle bit_operations_syntax

section \<open>The GCD testbench: transactions, scoreboard and coverage\<close>

text \<open>
  A shallow embedding of the pyuvm testbench under \<^verbatim>\<open>src/pyuvm/gcd\<close>. Python's
  unbounded integers are \<open>int\<close>; an object that a method mutates is a record that the
  function takes and returns; a logger is the list of the entries written to it, oldest
  first. The name string of a transaction (\<^verbatim>\<open>random_txn_3\<close>) is used by no method and
  is left out.
\<close>

subsection \<open>\<^verbatim>\<open>gcd_transaction.py\<close>: the transaction item\<close>

record GCDTransaction =
  value1 :: int
  value2 :: int
  loadingValues :: bool
  outputGCD :: int
  outputValid :: bool

text \<open>\<^verbatim>\<open>GCDTransaction.__init__\<close>: the fields of a freshly constructed item.\<close>

definition GCDTransaction_init :: GCDTransaction where
  "GCDTransaction_init =
     \<lparr>value1 = 0, value2 = 0, loadingValues = False, outputGCD = 0, outputValid = False\<rparr>"

subsection \<open>Loggers\<close>

datatype log_level = DEBUG | INFO | WARNING | ERROR

text \<open>One constructor for each message the testbench formats, with the values it prints.\<close>

datatype log_msg =
    Msg_PASS int int int int
  | Msg_FAIL int int int int bool
  | Msg_SCOREBOARD_SUMMARY int int int real
  | Msg_No_transactions_checked
  | Msg_Driver_received GCDTransaction
  | Msg_Resetting_DUT
  | Msg_Reset_complete
  | Msg_TIMEOUT_waiting_for_outputValid GCDTransaction
  | Msg_Transaction_complete nat int int int
  | Msg_Monitor_observed GCDTransaction
  | Msg_Monitor_timeout int int

type_synonym logger = "(log_level \<times> log_msg) list"

subsection \<open>\<^verbatim>\<open>gcd_scoreboard.py\<close>\<close>

record GCDScoreboard =
  passed :: int
  failed :: int
  sb_logger :: logger

definition GCDScoreboard_init :: GCDScoreboard where
  "GCDScoreboard_init = \<lparr>passed = 0, failed = 0, sb_logger = []\<rparr>"

text \<open>
  \<^verbatim>\<open>check_transaction\<close>: \<^verbatim>\<open>math.gcd\<close> is the non-negative greatest common divisor of
  two integers, with \<^verbatim>\<open>math.gcd(0, 0) == 0\<close>, which is \<^const>\<open>gcd\<close> on \<open>int\<close>.
\<close>

definition GCDScoreboard_check_transaction :: "GCDScoreboard \<Rightarrow> GCDTransaction \<Rightarrow> GCDScoreboard" where
  "GCDScoreboard_check_transaction sb txn =
     (let expected_gcd = gcd (value1 txn) (value2 txn) in
      if outputGCD txn = expected_gcd \<and> outputValid txn
      then sb\<lparr>passed := passed sb + 1,
              sb_logger := sb_logger sb @
                [(DEBUG, Msg_PASS (value1 txn) (value2 txn) (outputGCD txn) expected_gcd)]\<rparr>
      else sb\<lparr>failed := failed sb + 1,
              sb_logger := sb_logger sb @
                [(ERROR, Msg_FAIL (value1 txn) (value2 txn) (outputGCD txn) expected_gcd
                           (outputValid txn))]\<rparr>)"

definition GCDScoreboard_write :: "GCDScoreboard \<Rightarrow> GCDTransaction \<Rightarrow> GCDScoreboard" where
  "GCDScoreboard_write sb txn = GCDScoreboard_check_transaction sb txn"

text \<open>
  \<^verbatim>\<open>report_phase\<close> either returns or raises \<^verbatim>\<open>Exception\<close>; the exception carries the
  number of failed transactions that its message prints. The five \<^verbatim>\<open>info\<close> lines of the
  summary are one log entry.
\<close>

datatype py_error = Exception_transactions_failed int

definition GCDScoreboard_report_phase :: "GCDScoreboard \<Rightarrow> py_error + GCDScoreboard" where
  "GCDScoreboard_report_phase sb =
     (let total = passed sb + failed sb in
      if total > 0 then
        (let pass_rate = (real_of_int (passed sb) / real_of_int total) * 100;
             sb' = sb\<lparr>sb_logger := sb_logger sb @
                      [(INFO, Msg_SCOREBOARD_SUMMARY total (passed sb) (failed sb) pass_rate)]\<rparr>
         in if failed sb > 0 then Inl (Exception_transactions_failed (failed sb)) else Inr sb')
      else Inr (sb\<lparr>sb_logger := sb_logger sb @ [(WARNING, Msg_No_transactions_checked)]\<rparr>))"

subsection \<open>\<^verbatim>\<open>gcd_coverage.py\<close>\<close>

record GCDCoverage =
  zero_cases :: int
  one_cases :: int
  equal_cases :: int
  coprime_cases :: int
  max_value_cases :: int
  power_of_two_cases :: int
  total_transactions :: int

definition GCDCoverage_init :: GCDCoverage where
  "GCDCoverage_init =
     \<lparr>zero_cases = 0, one_cases = 0, equal_cases = 0, coprime_cases = 0,
      max_value_cases = 0, power_of_two_cases = 0, total_transactions = 0\<rparr>"

text \<open>\<^verbatim>\<open>is_power_of_two\<close>: Python's \<^verbatim>\<open>&\<close> on integers is \<open>AND\<close> on \<open>int\<close>.\<close>

definition is_power_of_two :: "int \<Rightarrow> bool" where
  "is_power_of_two n = (n > 0 \<and> (n AND (n - 1)) = 0)"

text \<open>\<^verbatim>\<open>GCDCoverage.write\<close>: the total, then the six tests one after the other.\<close>

definition GCDCoverage_write :: "GCDCoverage \<Rightarrow> GCDTransaction \<Rightarrow> GCDCoverage" where
  "GCDCoverage_write cov txn =
     (let c0 = cov\<lparr>total_transactions := total_transactions cov + 1\<rparr>;
          c1 = (if value1 txn = 0 \<or> value2 txn = 0
                then c0\<lparr>zero_cases := zero_cases c0 + 1\<rparr> else c0);
          c2 = (if value1 txn = 1 \<or> value2 txn = 1
                then c1\<lparr>one_cases := one_cases c1 + 1\<rparr> else c1);
          c3 = (if value1 txn = value2 txn
                then c2\<lparr>equal_cases := equal_cases c2 + 1\<rparr> else c2);
          c4 = (if outputGCD txn = 1
                then c3\<lparr>coprime_cases := coprime_cases c3 + 1\<rparr> else c3);
          c5 = (if value1 txn = 65535 \<or> value2 txn = 65535
                then c4\<lparr>max_value_cases := max_value_cases c4 + 1\<rparr> else c4);
          c6 = (if is_power_of_two (value1 txn) \<or> is_power_of_two (value2 txn)
                then c5\<lparr>power_of_two_cases := power_of_two_cases c5 + 1\<rparr> else c5)
      in c6)"

section \<open>The design under test and the clock\<close>

text \<open>
  The design is outside the repository. The testbench reads its pins only after awaiting
  a rising edge of the clock, so the design is a parameter: the values of the pins as they
  read once \<open>t\<close> rising edges have gone by. \<^verbatim>\<open>await RisingEdge(self.dut.clock)\<close>
  moves a coroutine from \<open>t\<close> to \<open>Suc t\<close>. The one-bit pins are \<open>bool\<close>:
  \<^verbatim>\<open>value == 1\<close> is the pin, \<^verbatim>\<open>value == 0\<close> its negation.
\<close>

record dut_pins =
  io_loadingValues :: bool
  io_value1 :: int
  io_value2 :: int
  io_outputGCD :: int
  io_outputValid :: bool

type_synonym dut = "nat \<Rightarrow> dut_pins"

section \<open>\<^verbatim>\<open>gcd_driver.py\<close> and the environment it publishes to\<close>

text \<open>
  \<^verbatim>\<open>GCDEnv.connect_phase\<close> binds the scoreboard and then the coverage collector to the
  driver's analysis port, and \<^verbatim>\<open>ap.write\<close> calls the \<^verbatim>\<open>write\<close> of each in that
  order before it returns. The state of a run is the driver's position on the clock, its
  logger, the transactions written to its port so far and the two subscribers. What the
  driver writes to the input pins reaches only the design and is not part of the state.
\<close>

record GCDEnv =
  now :: nat
  drv_logger :: logger
  ap_written :: "GCDTransaction list"
  scoreboard :: GCDScoreboard
  coverage :: GCDCoverage

definition GCDEnv_init :: GCDEnv where
  "GCDEnv_init =
     \<lparr>now = 0, drv_logger = [], ap_written = [],
      scoreboard = GCDScoreboard_init, coverage = GCDCoverage_init\<rparr>"

definition ap_write :: "GCDEnv \<Rightarrow> GCDTransaction \<Rightarrow> GCDEnv" where
  "ap_write env txn =
     env\<lparr>ap_written := ap_written env @ [txn],
         scoreboard := GCDScoreboard_write (scoreboard env) txn,
         coverage := GCDCoverage_write (coverage env) txn\<rparr>"

definition drv_log :: "log_level \<Rightarrow> log_msg \<Rightarrow> GCDEnv \<Rightarrow> GCDEnv" where
  "drv_log lvl msg env = env\<lparr>drv_logger := drv_logger env @ [(lvl, msg)]\<rparr>"

text \<open>\<^verbatim>\<open>reset_dut\<close>: five edges with reset held, one more after it is released.\<close>

definition reset_dut :: "GCDEnv \<Rightarrow> GCDEnv" where
  "reset_dut env =
     (let env1 = drv_log INFO Msg_Resetting_DUT env;
          env2 = env1\<lparr>now := now env1 + 5\<rparr>;
          env3 = env2\<lparr>now := Suc (now env2)\<rparr>
      in drv_log INFO Msg_Reset_complete env3)"

definition max_wait :: nat where
  "max_wait = 10"

definition max_cycles :: nat where
  "max_cycles = 1000"

text \<open>
  The first loop of \<^verbatim>\<open>drive_transaction\<close>, which lets a result-valid left over from
  the transaction before go low: from time \<open>t\<close> with \<open>wait_cycles\<close> edges awaited so far,
  the time at which the loop ends.
\<close>

function drain_valid :: "dut \<Rightarrow> nat \<Rightarrow> nat \<Rightarrow> nat" where
  "drain_valid d t wait_cycles =
     (if io_outputValid (d t) \<and> wait_cycles < max_wait
      then drain_valid d (Suc t) (Suc wait_cycles)
      else t)"
  by pat_completeness auto
termination
  by (relation "measure (\<lambda>(d, t, wait_cycles). max_wait - wait_cycles)") auto

declare drain_valid.simps [simp del]

text \<open>
  The second loop, which waits for result-valid: the time at which it ends and the value
  of \<^verbatim>\<open>cycles\<close> there.
\<close>

function wait_valid :: "dut \<Rightarrow> nat \<Rightarrow> nat \<Rightarrow> nat \<times> nat" where
  "wait_valid d t cycles =
     (if \<not> io_outputValid (d t) \<and> cycles < max_cycles
      then wait_valid d (Suc t) (Suc cycles)
      else (t, cycles))"
  by pat_completeness auto
termination
  by (relation "measure (\<lambda>(d, t, cycles). max_cycles - cycles)") auto

declare wait_valid.simps [simp del]

definition drive_transaction :: "dut \<Rightarrow> GCDEnv \<Rightarrow> GCDTransaction \<Rightarrow> GCDEnv \<times> GCDTransaction" where
  "drive_transaction d env txn =
     (let t1 = Suc (now env);
          t2 = drain_valid d t1 0;
          (t3, cycles) = wait_valid d t2 0;
          env' = env\<lparr>now := t3\<rparr>
      in if cycles \<ge> max_cycles
         then (drv_log ERROR (Msg_TIMEOUT_waiting_for_outputValid txn) env', txn)
         else (let txn' = txn\<lparr>outputGCD := io_outputGCD (d t3),
                                outputValid := io_outputValid (d t3)\<rparr>
               in (drv_log INFO (Msg_Transaction_complete cycles (value1 txn') (value2 txn')
                                   (outputGCD txn')) env',
                   txn')))"

text \<open>
  The loop of \<^verbatim>\<open>run_phase\<close>, over the items that \<^verbatim>\<open>get_next_item\<close> returns one
  after the other. When the sequences have no more items the call never returns, and the
  state stays as it is.
\<close>

fun driver_loop :: "dut \<Rightarrow> GCDEnv \<Rightarrow> GCDTransaction list \<Rightarrow> GCDEnv" where
  "driver_loop d env [] = env"
| "driver_loop d env (txn # items) =
     (let env1 = drv_log INFO (Msg_Driver_received txn) env;
          (env2, txn') = drive_transaction d env1 txn;
          env3 = ap_write env2 txn'
      in driver_loop d env3 items)"

definition GCDDriver_run_phase :: "dut \<Rightarrow> GCDEnv \<Rightarrow> GCDTransaction list \<Rightarrow> GCDEnv" where
  "GCDDriver_run_phase d env items = driver_loop d (reset_dut env) items"

text \<open>
  A whole test: the driver's run phase over the items of the selected sequences, then the
  scoreboard's report phase, whose exception is the outcome of the test. The coverage
  collector's report only logs.
\<close>

definition run_test :: "dut \<Rightarrow> GCDTransaction list \<Rightarrow> py_error + GCDEnv" where
  "run_test d items =
     (let env = GCDDriver_run_phase d GCDEnv_init items in
      case GCDScoreboard_report_phase (scoreboard env) of
        Inl e \<Rightarrow> Inl e
      | Inr sb \<Rightarrow> Inr (env\<lparr>scoreboard := sb\<rparr>))"

section \<open>\<^verbatim>\<open>gcd_monitor.py\<close>\<close>

text \<open>
  The monitor's loop never ends, so it is followed over the first \<open>n_edges\<close> rising
  edges of a simulation: an \<^verbatim>\<open>await\<close> at time \<open>t\<close> returns when \<open>t < n_edges\<close> and
  otherwise never does. Nothing is bound to the monitor's port; the state is its logger
  and the transactions written to the port.
\<close>

record GCDMonitor =
  mon_logger :: logger
  mon_ap_written :: "GCDTransaction list"

definition GCDMonitor_init :: GCDMonitor where
  "GCDMonitor_init = \<lparr>mon_logger = [], mon_ap_written = []\<rparr>"

definition mon_max_cycles :: nat where
  "mon_max_cycles = 1000"

text \<open>
  The inner loop: \<open>None\<close> when the simulation ends while the monitor waits, otherwise
  the time at which the loop ends and the value of \<^verbatim>\<open>cycles\<close> there.
\<close>

function mon_wait_valid :: "dut \<Rightarrow> nat \<Rightarrow> nat \<Rightarrow> nat \<Rightarrow> (nat \<times> nat) option" where
  "mon_wait_valid d n_edges t cycles =
     (if \<not> io_outputValid (d t) \<and> cycles < mon_max_cycles
      then (if t < n_edges then mon_wait_valid d n_edges (Suc t) (Suc cycles) else None)
      else Some (t, cycles))"
  by pat_completeness auto
termination
  by (relation "measure (\<lambda>(d, n_edges, t, cycles). mon_max_cycles - cycles)") auto

declare mon_wait_valid.simps [simp del]

lemma mon_wait_valid_later:
  "mon_wait_valid d n_edges t cycles = Some (t', cycles') \<Longrightarrow> t \<le> t'"
proof (induction d n_edges t cycles rule: mon_wait_valid.induct)
  case (1 d n_edges t cycles)
  note unfold = mon_wait_valid.simps [of d n_edges t cycles]
  show ?case
  proof (cases "\<not> io_outputValid (d t) \<and> cycles < mon_max_cycles")
    case True
    with "1.prems" have lt: "t < n_edges"
      by (simp add: unfold split: if_splits)
    with True "1.prems" have "mon_wait_valid d n_edges (Suc t) (Suc cycles) = Some (t', cycles')"
      by (simp add: unfold)
    with "1.IH" True lt have "Suc t \<le> t'"
      by simp
    then show ?thesis by simp
  next
    case False
    with "1.prems" show ?thesis
      by (simp add: unfold split: if_splits)
  qed
qed

lemma mon_wait_valid_measure:
  assumes "t < n_edges" and "mon_wait_valid d n_edges (Suc t) cycles = Some (t2, cycles')"
  shows "n_edges - t2 < n_edges - t"
proof -
  from assms(2) have "Suc t \<le> t2"
    by (rule mon_wait_valid_later)
  with assms(1) show ?thesis
    by arith
qed

function GCDMonitor_run_phase :: "dut \<Rightarrow> nat \<Rightarrow> nat \<Rightarrow> GCDMonitor \<Rightarrow> GCDMonitor" where
  "GCDMonitor_run_phase d n_edges t mon =
     (if t < n_edges then
        (let t1 = Suc t in
         if io_loadingValues (d t1) then
           (let txn = GCDTransaction_init\<lparr>value1 := io_value1 (d t1),
                                          value2 := io_value2 (d t1),
                                          loadingValues := True\<rparr>
            in case mon_wait_valid d n_edges t1 0 of
                 None \<Rightarrow> mon
               | Some (t2, cycles) \<Rightarrow>
                   if cycles < mon_max_cycles then
                     (let txn' = txn\<lparr>outputGCD := io_outputGCD (d t2),
                                      outputValid := io_outputValid (d t2)\<rparr>
                      in GCDMonitor_run_phase d n_edges t2
                           (mon\<lparr>mon_logger := mon_logger mon @ [(DEBUG, Msg_Monitor_observed txn')],
                                mon_ap_written := mon_ap_written mon @ [txn']\<rparr>))
                   else
                     GCDMonitor_run_phase d n_edges t2
                       (mon\<lparr>mon_logger := mon_logger mon @
                              [(WARNING, Msg_Monitor_timeout (value1 txn) (value2 txn))]\<rparr>))
         else GCDMonitor_run_phase d n_edges t1 mon)
      else mon)"
  by pat_completeness auto
termination
  by (relation "measure (\<lambda>(d, n_edges, t, mon). n_edges - t)")
     (auto dest: mon_wait_valid_measure)

declare GCDMonitor_run_phase.simps [simp del]

section \<open>\<^verbatim>\<open>gcd_transaction.py\<close> and \<^verbatim>\<open>gcd_sequences.py\<close>: generating items\<close>





definition directed_item :: "int \<times> int \<Rightarrow> GCDTransaction" where
  "directed_item p =
     (case p of (v1, v2) \<Rightarrow>
        GCDTransaction_init\<lparr>value1 := v1, value2 := v2, loadingValues := True\<rparr>)"










section \<open>The sequencer rendezvous\<close>

text \<open>
  The two coroutines that meet at the sequencer are the body of a sequence, which for
  each of its items awaits \<^verbatim>\<open>start_item\<close> and then \<^verbatim>\<open>finish_item\<close>, and
  \<^verbatim>\<open>GCDDriver.run_phase\<close>. Each is at one of its suspension points, and a step runs one
  of them to its next one; the scheduler may pick either whenever both can go on. The
  events of a run are the calls that the two make, in the order in which they return.
\<close>

datatype seq_pc =
    Seq_loop "GCDTransaction list"
  | Seq_start_item GCDTransaction "GCDTransaction list"
  | Seq_finish_item GCDTransaction "GCDTransaction list"

datatype drv_pc =
    Drv_reset_dut
  | Drv_get_next_item
  | Drv_drive_transaction GCDTransaction
  | Drv_ap_write GCDTransaction
  | Drv_item_done

datatype event =
    Ev_start_item GCDTransaction
  | Ev_get_next_item GCDTransaction
  | Ev_ap_write GCDTransaction
  | Ev_item_done

record testbench =
  seq :: seq_pc
  pending :: "GCDTransaction option"
  outstanding :: bool
  drv :: drv_pc
  tb_env :: GCDEnv
  trace :: "event list"

definition initial :: "GCDTransaction list \<Rightarrow> testbench" where
  "initial items =
     \<lparr>seq = Seq_loop items, pending = None, outstanding = False, drv = Drv_reset_dut,
      tb_env = GCDEnv_init, trace = []\<rparr>"

text \<open>
  Modelled from the spec: the sequencer is pyuvm's \<^verbatim>\<open>uvm_sequencer\<close>, which is not in
  the repository. Following sections 3 and 4.1 of the specification it is a slot for at
  most one pending transaction and an item-outstanding flag. \<^verbatim>\<open>start_item\<close> puts the
  item into the slot and returns once the driver has taken it; \<^verbatim>\<open>get_next_item\<close>
  returns once the slot is full, empties it and sets the flag; \<^verbatim>\<open>item_done\<close> clears
  the flag; \<^verbatim>\<open>finish_item\<close> returns once the flag is clear. The steps of the driver
  are those of \<^verbatim>\<open>run_phase\<close>, with \<open>reset_dut\<close>, \<open>drive_transaction\<close> and
  \<open>ap_write\<close> as above.
\<close>

inductive step :: "dut \<Rightarrow> testbench \<Rightarrow> testbench \<Rightarrow> bool" for d :: dut where
  seq_start_item:
    "seq s = Seq_loop (x # xs) \<Longrightarrow> pending s = None \<Longrightarrow>
     step d s (s\<lparr>seq := Seq_start_item x xs, pending := Some x,
                  trace := trace s @ [Ev_start_item x]\<rparr>)"
| seq_finish_item:
    "seq s = Seq_start_item x xs \<Longrightarrow> pending s = None \<Longrightarrow>
     step d s (s\<lparr>seq := Seq_finish_item x xs\<rparr>)"
| seq_next:
    "seq s = Seq_finish_item x xs \<Longrightarrow> \<not> outstanding s \<Longrightarrow>
     step d s (s\<lparr>seq := Seq_loop xs\<rparr>)"
| drv_reset_dut:
    "drv s = Drv_reset_dut \<Longrightarrow>
     step d s (s\<lparr>drv := Drv_get_next_item, tb_env := reset_dut (tb_env s)\<rparr>)"
| drv_get_next_item:
    "drv s = Drv_get_next_item \<Longrightarrow> pending s = Some x \<Longrightarrow>
     step d s (s\<lparr>pending := None, outstanding := True, drv := Drv_drive_transaction x,
                  trace := trace s @ [Ev_get_next_item x]\<rparr>)"
| drv_drive_transaction:
    "drv s = Drv_drive_transaction x \<Longrightarrow>
     step d s
       (s\<lparr>drv := Drv_ap_write
                   (snd (drive_transaction d (drv_log INFO (Msg_Driver_received x) (tb_env s)) x)),
          tb_env := fst (drive_transaction d (drv_log INFO (Msg_Driver_received x) (tb_env s)) x)\<rparr>)"
| drv_ap_write:
    "drv s = Drv_ap_write x \<Longrightarrow>
     step d s (s\<lparr>drv := Drv_item_done, tb_env := ap_write (tb_env s) x,
                  trace := trace s @ [Ev_ap_write x]\<rparr>)"
| drv_item_done:
    "drv s = Drv_item_done \<Longrightarrow>
     step d s (s\<lparr>outstanding := False, drv := Drv_get_next_item,
                  trace := trace s @ [Ev_item_done]\<rparr>)"

text \<open>The items handed to \<^verbatim>\<open>start_item\<close> and those returned by \<^verbatim>\<open>get_next_item\<close>.\<close>

fun started :: "event list \<Rightarrow> GCDTransaction list" where
  "started [] = []"
| "started (Ev_start_item x # es) = x # started es"
| "started (e # es) = started es"

fun pulled :: "event list \<Rightarrow> GCDTransaction list" where
  "pulled [] = []"
| "pulled (Ev_get_next_item x # es) = x # pulled es"
| "pulled (e # es) = pulled es"

text \<open>
  A trace is serial when it goes round and round through: an item is handed to
  \<^verbatim>\<open>start_item\<close>; \<^verbatim>\<open>get_next_item\<close> returns that item; the driver writes to its port;
  the driver calls \<^verbatim>\<open>item_done\<close>.
\<close>

datatype phase = Idle | Submitted GCDTransaction | Got | Written

fun next_phase :: "phase \<Rightarrow> event \<Rightarrow> phase option" where
  "next_phase Idle (Ev_start_item x) = Some (Submitted x)"
| "next_phase (Submitted x) (Ev_get_next_item y) = (if x = y then Some Got else None)"
| "next_phase Got (Ev_ap_write x) = Some Written"
| "next_phase Written Ev_item_done = Some Idle"
| "next_phase p e = None"

fun run_phases :: "phase \<Rightarrow> event list \<Rightarrow> phase option" where
  "run_phases p [] = Some p"
| "run_phases p (e # es) =
     (case next_phase p e of None \<Rightarrow> None | Some p' \<Rightarrow> run_phases p' es)"

definition serial :: "event list \<Rightarrow> bool" where
  "serial es = (run_phases Idle es \<noteq> None)"

text \<open>The trace of the run in which every coroutine goes on as soon as it can.\<close>

fun expected_trace :: "dut \<Rightarrow> GCDEnv \<Rightarrow> GCDTransaction list \<Rightarrow> event list" where
  "expected_trace d e [] = []"
| "expected_trace d e (x # xs) =
     (let r = drive_transaction d (drv_log INFO (Msg_Driver_received x) e) x in
      [Ev_start_item x, Ev_get_next_item x, Ev_ap_write (snd r), Ev_item_done] @
      expected_trace d (ap_write (fst r) (snd r)) xs)"

text \<open>
  The invariant of the rendezvous: what the slot and the flag can be at each suspension
  point of the sequence, the flag set exactly while the driver holds an item, the phase
  that the trace has reached, the items not yet handed over and not yet pulled, and the
  environment in which the driver's loop over the items not yet pulled ends.
\<close>

fun todo :: "seq_pc \<Rightarrow> GCDTransaction list" where
  "todo (Seq_loop xs) = xs"
| "todo (Seq_start_item x xs) = xs"
| "todo (Seq_finish_item x xs) = xs"

fun busy :: "drv_pc \<Rightarrow> bool" where
  "busy (Drv_drive_transaction x) = True"
| "busy (Drv_ap_write x) = True"
| "busy Drv_item_done = True"
| "busy p = False"

fun slot_ok :: "seq_pc \<Rightarrow> GCDTransaction option \<Rightarrow> bool \<Rightarrow> bool" where
  "slot_ok (Seq_loop xs) p out = (p = None \<and> \<not> out)"
| "slot_ok (Seq_start_item x xs) p out = (p = None \<or> (p = Some x \<and> \<not> out))"
| "slot_ok (Seq_finish_item x xs) p out = (p = None)"

fun phase_of :: "GCDTransaction option \<Rightarrow> drv_pc \<Rightarrow> phase" where
  "phase_of (Some x) p = Submitted x"
| "phase_of None (Drv_drive_transaction x) = Got"
| "phase_of None (Drv_ap_write x) = Got"
| "phase_of None Drv_item_done = Written"
| "phase_of None p = Idle"

fun unpulled :: "GCDTransaction option \<Rightarrow> seq_pc \<Rightarrow> GCDTransaction list" where
  "unpulled None q = todo q"
| "unpulled (Some x) q = x # todo q"

fun rest_of_run :: "dut \<Rightarrow> drv_pc \<Rightarrow> GCDEnv \<Rightarrow> GCDTransaction list \<Rightarrow> GCDEnv" where
  "rest_of_run d Drv_reset_dut e xs = driver_loop d (reset_dut e) xs"
| "rest_of_run d Drv_get_next_item e xs = driver_loop d e xs"
| "rest_of_run d (Drv_drive_transaction x) e xs = driver_loop d e (x # xs)"
| "rest_of_run d (Drv_ap_write x) e xs = driver_loop d (ap_write e x) xs"
| "rest_of_run d Drv_item_done e xs = driver_loop d e xs"

definition rendezvous_inv :: "dut \<Rightarrow> GCDTransaction list \<Rightarrow> testbench \<Rightarrow> bool" where
  "rendezvous_inv d items s =
     (slot_ok (seq s) (pending s) (outstanding s) \<and>
      outstanding s = busy (drv s) \<and>
      run_phases Idle (trace s) = Some (phase_of (pending s) (drv s)) \<and>
      started (trace s) @ todo (seq s) = items \<and>
      pulled (trace s) @ unpulled (pending s) (seq s) = items \<and>
      rest_of_run d (drv s) (tb_env s) (unpulled (pending s) (seq s)) =
        GCDDriver_run_phase d GCDEnv_init items)"

section \<open>Design stubs and the monitor's contract\<close>

text \<open>
  Four designs for concrete runs: one that never asserts result-valid, one that asserts it
  from the edge 1001 on, and two that are loaded with the operands 48 and 18 at the edge 1,
  the first answering 6 at the edge 5 and the second never answering.
\<close>

definition late_valid_dut :: dut where
  "late_valid_dut t =
     \<lparr>io_loadingValues = False, io_value1 = 0, io_value2 = 0, io_outputGCD = 6,
      io_outputValid = (1001 \<le> t)\<rparr>"

definition never_valid_dut :: dut where
  "never_valid_dut t =
     \<lparr>io_loadingValues = False, io_value1 = 0, io_value2 = 0, io_outputGCD = 0,
      io_outputValid = False\<rparr>"

definition answered_dut :: dut where
  "answered_dut t =
     \<lparr>io_loadingValues = (t = 1), io_value1 = 48, io_value2 = 18, io_outputGCD = 6,
      io_outputValid = (t = 5)\<rparr>"

definition unanswered_dut :: dut where
  "unanswered_dut t =
     \<lparr>io_loadingValues = (t = 1), io_value1 = 48, io_value2 = 18, io_outputGCD = 0,
      io_outputValid = False\<rparr>"

text \<open>
  What a transaction on the monitor's port has to be: built from the operands on the pins
  at an edge \<open>t0\<close> with the load strobe set, and completed with the output on the pins at
  the first edge \<open>t1\<close> from \<open>t0\<close> on with result-valid set, fewer than 1000 edges later.
\<close>

definition captured_at :: "dut \<Rightarrow> nat \<Rightarrow> nat \<Rightarrow> GCDTransaction \<Rightarrow> bool" where
  "captured_at d t0 t1 txn =
     (io_loadingValues (d t0) \<and> t0 \<le> t1 \<and> t1 - t0 < 1000 \<and>
      list_all (\<lambda>j. \<not> io_outputValid (d j)) [t0..<t1] \<and> io_outputValid (d t1) \<and>
      txn = \<lparr>value1 = io_value1 (d t0), value2 = io_value2 (d t0), loadingValues = True,
             outputGCD = io_outputGCD (d t1), outputValid = True\<rparr>)"

section \<open>The scoreboard\<close>

lemma check_transaction_counts:
  "passed (GCDScoreboard_check_transaction sb txn) =
     passed sb +
     (if outputGCD txn = gcd (value1 txn) (value2 txn) \<and> outputValid txn then 1 else 0)"
  "failed (GCDScoreboard_check_transaction sb txn) =
     failed sb +
     (if outputGCD txn = gcd (value1 txn) (value2 txn) \<and> outputValid txn then 0 else 1)"
  by (simp_all add: GCDScoreboard_check_transaction_def Let_def)

lemma write_total:
  "passed (GCDScoreboard_write sb txn) + failed (GCDScoreboard_write sb txn) =
     passed sb + failed sb + 1"
  by (simp add: GCDScoreboard_write_def check_transaction_counts)

lemma foldl_write_total:
  "passed (foldl GCDScoreboard_write sb txns) + failed (foldl GCDScoreboard_write sb txns) =
     passed sb + failed sb + int (length txns)"
  by (induction txns arbitrary: sb) (simp_all add: write_total)

lemma foldl_write_failed:
  "failed (foldl GCDScoreboard_write sb txns) =
     failed sb +
     int (length (filter
       (\<lambda>txn. \<not> (outputGCD txn = gcd (value1 txn) (value2 txn) \<and> outputValid txn)) txns))"
  by (induction txns arbitrary: sb)
     (simp_all add: GCDScoreboard_write_def check_transaction_counts)

lemma foldl_write_passed:
  "passed (foldl GCDScoreboard_write sb txns) =
     passed sb +
     int (length (filter
       (\<lambda>txn. outputGCD txn = gcd (value1 txn) (value2 txn) \<and> outputValid txn) txns))"
  by (induction txns arbitrary: sb)
     (simp_all add: GCDScoreboard_write_def check_transaction_counts)

subsection \<open>What the driver's steps leave alone\<close>

lemma drv_log_fields [simp]:
  "now (drv_log lvl msg env) = now env"
  "ap_written (drv_log lvl msg env) = ap_written env"
  "scoreboard (drv_log lvl msg env) = scoreboard env"
  "coverage (drv_log lvl msg env) = coverage env"
  "drv_logger (drv_log lvl msg env) = drv_logger env @ [(lvl, msg)]"
  by (simp_all add: drv_log_def)

lemma drive_transaction_fields [simp]:
  "ap_written (fst (drive_transaction d env txn)) = ap_written env"
  "scoreboard (fst (drive_transaction d env txn)) = scoreboard env"
  "coverage (fst (drive_transaction d env txn)) = coverage env"
  by (simp_all add: drive_transaction_def Let_def split: prod.splits)

lemma ap_write_fields [simp]:
  "now (ap_write env txn) = now env"
  "drv_logger (ap_write env txn) = drv_logger env"
  "ap_written (ap_write env txn) = ap_written env @ [txn]"
  "scoreboard (ap_write env txn) = GCDScoreboard_write (scoreboard env) txn"
  "coverage (ap_write env txn) = GCDCoverage_write (coverage env) txn"
  by (simp_all add: ap_write_def)

lemma reset_dut_fields [simp]:
  "now (reset_dut env) = now env + 6"
  "ap_written (reset_dut env) = ap_written env"
  "scoreboard (reset_dut env) = scoreboard env"
  "coverage (reset_dut env) = coverage env"
  by (simp_all add: reset_dut_def Let_def)

lemma driver_loop_step:
  "driver_loop d env (txn # items) =
     driver_loop d
       (ap_write (fst (drive_transaction d (drv_log INFO (Msg_Driver_received txn) env) txn))
                 (snd (drive_transaction d (drv_log INFO (Msg_Driver_received txn) env) txn)))
       items"
  by (simp add: Let_def split: prod.splits)

lemma driver_loop_total:
  "passed (scoreboard (driver_loop d env items)) + failed (scoreboard (driver_loop d env items)) =
     passed (scoreboard env) + failed (scoreboard env) + int (length items)"
proof (induction items arbitrary: env)
  case Nil
  show ?case by simp
next
  case (Cons txn items)
  show ?case
    by (simp only: driver_loop_step Cons.IH) (simp add: write_total)
qed

text \<open>
  The scoreboard after the loop has seen exactly what the loop wrote to the port, one
  transaction for each item.
\<close>

lemma driver_loop_scoreboard:
  "\<exists>txns. ap_written (driver_loop d env items) = ap_written env @ txns \<and>
          length txns = length items \<and>
          scoreboard (driver_loop d env items) =
            foldl GCDScoreboard_write (scoreboard env) txns"
proof (induction items arbitrary: env)
  case Nil
  show ?case by simp
next
  case (Cons txn items)
  let ?env1 = "drv_log INFO (Msg_Driver_received txn) env"
  let ?txn' = "snd (drive_transaction d ?env1 txn)"
  let ?env3 = "ap_write (fst (drive_transaction d ?env1 txn)) ?txn'"
  from Cons.IH [of ?env3] obtain txns where
    "ap_written (driver_loop d ?env3 items) = ap_written ?env3 @ txns"
    "length txns = length items"
    "scoreboard (driver_loop d ?env3 items) = foldl GCDScoreboard_write (scoreboard ?env3) txns"
    by blast
  then have "ap_written (driver_loop d env (txn # items)) = ap_written env @ (?txn' # txns) \<and>
      length (?txn' # txns) = length (txn # items) \<and>
      scoreboard (driver_loop d env (txn # items)) =
        foldl GCDScoreboard_write (scoreboard env) (?txn' # txns)"
    by (simp only: driver_loop_step) simp
  then show ?case by blast
qed

lemma run_phase_scoreboard:
  "scoreboard (GCDDriver_run_phase d GCDEnv_init items) =
     foldl GCDScoreboard_write GCDScoreboard_init
       (ap_written (GCDDriver_run_phase d GCDEnv_init items))
   \<and> length (ap_written (GCDDriver_run_phase d GCDEnv_init items)) = length items"
proof -
  from driver_loop_scoreboard [of d "reset_dut GCDEnv_init" items]
  show ?thesis
    by (auto simp: GCDDriver_run_phase_def GCDEnv_init_def)
qed

text \<open>
  C1. A transaction passes when its captured output equals the greatest common divisor of
  its two operands and its result-valid flag is set. The scoreboard's \<^verbatim>\<open>write\<close> adds
  one to \<open>passed\<close> and leaves \<open>failed\<close> as it is when the transaction passes, and adds one
  to \<open>failed\<close> and leaves \<open>passed\<close> as it is when it does not. After any list of
  transactions, and after a run of the driver over any items against any design, the two
  counters add up to the number of transactions the scoreboard received.
\<close>

theorem scoreboard_counts_every_transaction:
  "passed (GCDScoreboard_write sb txn) =
     passed sb +
     (if outputGCD txn = gcd (value1 txn) (value2 txn) \<and> outputValid txn then 1 else 0)
   \<and> failed (GCDScoreboard_write sb txn) =
     failed sb +
     (if outputGCD txn = gcd (value1 txn) (value2 txn) \<and> outputValid txn then 0 else 1)
   \<and> passed (foldl GCDScoreboard_write GCDScoreboard_init txns) +
     failed (foldl GCDScoreboard_write GCDScoreboard_init txns) = int (length txns)
   \<and> passed (scoreboard (GCDDriver_run_phase d GCDEnv_init items)) +
     failed (scoreboard (GCDDriver_run_phase d GCDEnv_init items)) = int (length items)"
proof -
  have "passed (foldl GCDScoreboard_write GCDScoreboard_init txns) +
     failed (foldl GCDScoreboard_write GCDScoreboard_init txns) = int (length txns)"
    by (simp add: foldl_write_total GCDScoreboard_init_def)
  moreover have "passed (scoreboard (GCDDriver_run_phase d GCDEnv_init items)) +
     failed (scoreboard (GCDDriver_run_phase d GCDEnv_init items)) = int (length items)"
    by (simp add: GCDDriver_run_phase_def driver_loop_total GCDEnv_init_def
        GCDScoreboard_init_def)
  ultimately show ?thesis
    by (simp add: GCDScoreboard_write_def check_transaction_counts)
qed

text \<open>
  C7. The five directed vectors: the greatest common divisors of (48, 18), (17, 19),
  (100, 100), (1071, 462) and (256, 1024) are 6, 1, 100, 21 and 256, and a scoreboard that
  receives the five transactions, each with that value captured and result-valid set, ends
  with \<open>passed = 5\<close> and \<open>failed = 0\<close>.
\<close>

theorem directed_vectors_all_pass:
  "gcd (48::int) 18 = 6 \<and> gcd (17::int) 19 = 1 \<and> gcd (100::int) 100 = 100 \<and>
   gcd (1071::int) 462 = 21 \<and> gcd (256::int) 1024 = 256 \<and>
   passed (foldl GCDScoreboard_write GCDScoreboard_init
     [(directed_item (48, 18))\<lparr>outputGCD := 6, outputValid := True\<rparr>,
      (directed_item (17, 19))\<lparr>outputGCD := 1, outputValid := True\<rparr>,
      (directed_item (100, 100))\<lparr>outputGCD := 100, outputValid := True\<rparr>,
      (directed_item (1071, 462))\<lparr>outputGCD := 21, outputValid := True\<rparr>,
      (directed_item (256, 1024))\<lparr>outputGCD := 256, outputValid := True\<rparr>]) = 5 \<and>
   failed (foldl GCDScoreboard_write GCDScoreboard_init
     [(directed_item (48, 18))\<lparr>outputGCD := 6, outputValid := True\<rparr>,
      (directed_item (17, 19))\<lparr>outputGCD := 1, outputValid := True\<rparr>,
      (directed_item (100, 100))\<lparr>outputGCD := 100, outputValid := True\<rparr>,
      (directed_item (1071, 462))\<lparr>outputGCD := 21, outputValid := True\<rparr>,
      (directed_item (256, 1024))\<lparr>outputGCD := 256, outputValid := True\<rparr>]) = 0"
proof -
  have g: "gcd (48::int) 18 = 6" "gcd (17::int) 19 = 1" "gcd (100::int) 100 = 100"
    "gcd (1071::int) 462 = 21" "gcd (256::int) 1024 = 256"
    by code_simp+
  show ?thesis
    by (simp add: g GCDScoreboard_write_def check_transaction_counts directed_item_def
        GCDTransaction_init_def GCDScoreboard_init_def)
qed

text \<open>
  C4. A test raises exactly when the scoreboard's \<open>failed\<close> counter is greater than 0
  at the end of the run, and the exception is the one of the scoreboard's report phase;
  with \<open>failed = 0\<close> the test returns. Nothing that happens to a single transaction ends
  the run: whatever the design does, every item is driven and written to the port, and a
  transaction that timed out or came back wrong is one more in \<open>failed\<close>, which counts
  exactly the written transactions that do not pass.
\<close>

theorem only_the_report_phase_fails_the_run:
  "(run_test d items =
      Inl (Exception_transactions_failed
             (failed (scoreboard (GCDDriver_run_phase d GCDEnv_init items))))) =
     (0 < failed (scoreboard (GCDDriver_run_phase d GCDEnv_init items)))
   \<and> (\<exists>env. run_test d items = Inr env) =
     (failed (scoreboard (GCDDriver_run_phase d GCDEnv_init items)) = 0)
   \<and> length (ap_written (GCDDriver_run_phase d GCDEnv_init items)) = length items
   \<and> failed (scoreboard (GCDDriver_run_phase d GCDEnv_init items)) =
       int (length (filter
         (\<lambda>txn. \<not> (outputGCD txn = gcd (value1 txn) (value2 txn) \<and> outputValid txn))
         (ap_written (GCDDriver_run_phase d GCDEnv_init items))))"
proof -
  let ?env = "GCDDriver_run_phase d GCDEnv_init items"
  let ?sb = "scoreboard ?env"
  have sb: "?sb = foldl GCDScoreboard_write GCDScoreboard_init (ap_written ?env)"
    and len: "length (ap_written ?env) = length items"
    using run_phase_scoreboard [of d items] by simp_all
  have p: "0 \<le> passed ?sb"
    by (subst sb) (simp add: foldl_write_passed GCDScoreboard_init_def)
  have f: "failed ?sb = int (length (filter
      (\<lambda>txn. \<not> (outputGCD txn = gcd (value1 txn) (value2 txn) \<and> outputValid txn))
      (ap_written ?env)))"
    by (subst sb) (simp add: foldl_write_failed GCDScoreboard_init_def)
  then have f0: "0 \<le> failed ?sb"
    by simp
  have r: "(run_test d items = Inl (Exception_transactions_failed (failed ?sb))) =
      (0 < failed ?sb)"
    using p f0 by (simp add: run_test_def GCDScoreboard_report_phase_def Let_def)
  have r': "(\<exists>env. run_test d items = Inr env) = (failed ?sb = 0)"
    using p f0 by (auto simp: run_test_def GCDScoreboard_report_phase_def Let_def)
  from r r' len f show ?thesis
    by blast
qed

section \<open>The coverage collector\<close>

lemma and_pow2_pred: "(2 ^ k :: int) AND (2 ^ k - 1) = 0"
proof -
  have "(mask k :: int) AND 2 ^ k = 0"
    by (simp add: and_exp_eq_0_iff_not_bit bit_mask_iff)
  then show ?thesis
    by (simp add: mask_eq_exp_minus_1 and.commute)
qed

lemma and_pred_even: "(2 * m) AND (2 * m - 1) = 2 * (m AND (m - 1))" for m :: int
proof -
  have "(2 * m - 1) div 2 = m - 1"
    by arith
  then show ?thesis
    by (subst and_int_rec) simp
qed

lemma and_pred_odd: "(2 * m + 1) AND (2 * m) = 2 * m" for m :: int
  by (subst and_int_rec) simp

lemma and_pred_zero_pow2: "0 < n \<Longrightarrow> n AND (n - 1) = 0 \<Longrightarrow> \<exists>k. n = 2 ^ k" for n :: int
proof (induction "nat n" arbitrary: n rule: less_induct)
  case less
  show ?case
  proof (cases "even n")
    case True
    then obtain m where m: "n = 2 * m" by (auto elim: evenE)
    with less.prems have "0 < m" and "m AND (m - 1) = 0"
      by (simp_all add: and_pred_even)
    moreover from m \<open>0 < m\<close> have "nat m < nat n" by simp
    ultimately obtain k where "m = 2 ^ k"
      using less.hyps by blast
    with m have "n = 2 ^ Suc k" by simp
    then show ?thesis by blast
  next
    case False
    then obtain m where m: "n = 2 * m + 1" by (auto elim: oddE)
    with less.prems have "m = 0"
      by (simp add: and_pred_odd)
    with m have "n = 2 ^ 0" by simp
    then show ?thesis by blast
  qed
qed

lemma is_power_of_two_iff: "is_power_of_two n = (\<exists>k. n = 2 ^ k)"
  using and_pred_zero_pow2 [of n] by (auto simp: is_power_of_two_def and_pow2_pred)

lemma GCDCoverage_write_eq:
  "GCDCoverage_write cov txn =
     \<lparr>zero_cases = zero_cases cov + (if value1 txn = 0 \<or> value2 txn = 0 then 1 else 0),
      one_cases = one_cases cov + (if value1 txn = 1 \<or> value2 txn = 1 then 1 else 0),
      equal_cases = equal_cases cov + (if value1 txn = value2 txn then 1 else 0),
      coprime_cases = coprime_cases cov + (if outputGCD txn = 1 then 1 else 0),
      max_value_cases = max_value_cases cov +
        (if value1 txn = 65535 \<or> value2 txn = 65535 then 1 else 0),
      power_of_two_cases = power_of_two_cases cov +
        (if is_power_of_two (value1 txn) \<or> is_power_of_two (value2 txn) then 1 else 0),
      total_transactions = total_transactions cov + 1\<rparr>"
proof -
  have bump:
    "(if c then r\<lparr>zero_cases := zero_cases r + 1\<rparr> else r) =
       r\<lparr>zero_cases := zero_cases r + (if c then 1 else 0)\<rparr>"
    "(if c then r\<lparr>one_cases := one_cases r + 1\<rparr> else r) =
       r\<lparr>one_cases := one_cases r + (if c then 1 else 0)\<rparr>"
    "(if c then r\<lparr>equal_cases := equal_cases r + 1\<rparr> else r) =
       r\<lparr>equal_cases := equal_cases r + (if c then 1 else 0)\<rparr>"
    "(if c then r\<lparr>coprime_cases := coprime_cases r + 1\<rparr> else r) =
       r\<lparr>coprime_cases := coprime_cases r + (if c then 1 else 0)\<rparr>"
    "(if c then r\<lparr>max_value_cases := max_value_cases r + 1\<rparr> else r) =
       r\<lparr>max_value_cases := max_value_cases r + (if c then 1 else 0)\<rparr>"
    "(if c then r\<lparr>power_of_two_cases := power_of_two_cases r + 1\<rparr> else r) =
       r\<lparr>power_of_two_cases := power_of_two_cases r + (if c then 1 else 0)\<rparr>"
    for c :: bool and r :: GCDCoverage
    by simp_all
  show ?thesis
    unfolding GCDCoverage_write_def Let_def bump
    by (simp split del: if_split)
qed

text \<open>
  C5. The coverage collector's \<^verbatim>\<open>write\<close> adds one to the total and, each on its own
  test, one to every bin whose test holds: an operand is 0; an operand is 1; the operands
  are equal; the observed output is 1; an operand is 65535, the largest value of 16 bits;
  an operand passes \<^verbatim>\<open>is_power_of_two\<close>, which holds exactly of the powers of two
  \<open>2 ^ k\<close>. A transaction with operands 17 and 19 and output 1 adds one to
  \<open>coprime_cases\<close> and leaves \<open>zero_cases\<close> and \<open>equal_cases\<close> as they are; one with
  first operand 256 adds one to \<open>power_of_two_cases\<close> whatever the second operand is, 1024
  included.
\<close>

theorem coverage_bins_tested_independently:
  "GCDCoverage_write cov txn =
     \<lparr>zero_cases = zero_cases cov + (if value1 txn = 0 \<or> value2 txn = 0 then 1 else 0),
      one_cases = one_cases cov + (if value1 txn = 1 \<or> value2 txn = 1 then 1 else 0),
      equal_cases = equal_cases cov + (if value1 txn = value2 txn then 1 else 0),
      coprime_cases = coprime_cases cov + (if outputGCD txn = 1 then 1 else 0),
      max_value_cases = max_value_cases cov +
        (if value1 txn = 65535 \<or> value2 txn = 65535 then 1 else 0),
      power_of_two_cases = power_of_two_cases cov +
        (if is_power_of_two (value1 txn) \<or> is_power_of_two (value2 txn) then 1 else 0),
      total_transactions = total_transactions cov + 1\<rparr>
   \<and> is_power_of_two n = (\<exists>k. n = 2 ^ k)
   \<and> (65535 :: int) = 2 ^ 16 - 1
   \<and> coprime_cases (GCDCoverage_write cov (txn\<lparr>value1 := 17, value2 := 19, outputGCD := 1\<rparr>)) =
       coprime_cases cov + 1
   \<and> zero_cases (GCDCoverage_write cov (txn\<lparr>value1 := 17, value2 := 19, outputGCD := 1\<rparr>)) =
       zero_cases cov
   \<and> equal_cases (GCDCoverage_write cov (txn\<lparr>value1 := 17, value2 := 19, outputGCD := 1\<rparr>)) =
       equal_cases cov
   \<and> power_of_two_cases (GCDCoverage_write cov (txn\<lparr>value1 := 256, value2 := 1024\<rparr>)) =
       power_of_two_cases cov + 1
   \<and> power_of_two_cases (GCDCoverage_write cov (txn\<lparr>value1 := 256\<rparr>)) =
       power_of_two_cases cov + 1"
proof -
  have p: "is_power_of_two 256"
    by (simp add: is_power_of_two_def)
  have e: "coprime_cases (GCDCoverage_write cov (txn\<lparr>value1 := 17, value2 := 19, outputGCD := 1\<rparr>)) =
       coprime_cases cov + 1
   \<and> zero_cases (GCDCoverage_write cov (txn\<lparr>value1 := 17, value2 := 19, outputGCD := 1\<rparr>)) =
       zero_cases cov
   \<and> equal_cases (GCDCoverage_write cov (txn\<lparr>value1 := 17, value2 := 19, outputGCD := 1\<rparr>)) =
       equal_cases cov"
    by (simp add: GCDCoverage_write_eq)
  have q: "power_of_two_cases (GCDCoverage_write cov (txn\<lparr>value1 := 256, value2 := 1024\<rparr>)) =
       power_of_two_cases cov + 1
   \<and> power_of_two_cases (GCDCoverage_write cov (txn\<lparr>value1 := 256\<rparr>)) =
       power_of_two_cases cov + 1"
    by (simp add: GCDCoverage_write_eq p)
  have m: "(65535 :: int) = 2 ^ 16 - 1"
    by simp
  from GCDCoverage_write_eq [of cov txn] is_power_of_two_iff [of n] m e q show ?thesis
    by blast
qed

section \<open>The driver's wait for result-valid\<close>

lemma wait_valid_stop:
  "io_outputValid (d t) \<or> max_cycles \<le> cycles \<Longrightarrow> wait_valid d t cycles = (t, cycles)"
  by (subst wait_valid.simps) auto

lemma wait_valid_skip:
  "(\<And>k. k < m \<Longrightarrow> \<not> io_outputValid (d (t + k))) \<Longrightarrow> cycles + m \<le> max_cycles \<Longrightarrow>
     wait_valid d t cycles = wait_valid d (t + m) (cycles + m)"
proof (induction m arbitrary: t cycles)
  case 0
  show ?case by simp
next
  case (Suc m)
  from Suc.prems(1) [of 0] have low: "\<not> io_outputValid (d t)"
    by simp
  from Suc.prems(2) have lt: "cycles < max_cycles"
    by simp
  have "wait_valid d (Suc t) (Suc cycles) = wait_valid d (Suc t + m) (Suc cycles + m)"
  proof (rule Suc.IH)
    fix k assume "k < m"
    then show "\<not> io_outputValid (d (Suc t + k))"
      using Suc.prems(1) [of "Suc k"] by simp
  next
    from Suc.prems(2) show "Suc cycles + m \<le> max_cycles"
      by simp
  qed
  with low lt show ?case
    by (subst wait_valid.simps) simp
qed

lemma wait_valid_timeout:
  assumes "\<And>k. k < max_cycles \<Longrightarrow> \<not> io_outputValid (d (t + k))"
  shows "wait_valid d t 0 = (t + max_cycles, max_cycles)"
proof -
  from assms have "wait_valid d t 0 = wait_valid d (t + max_cycles) (0 + max_cycles)"
    by (intro wait_valid_skip) simp_all
  then show ?thesis
    by (simp add: wait_valid_stop)
qed

lemma wait_valid_success:
  assumes "k < max_cycles" and "io_outputValid (d (t + k))"
    and "\<And>j. j < k \<Longrightarrow> \<not> io_outputValid (d (t + j))"
  shows "wait_valid d t 0 = (t + k, k)"
proof -
  from assms have "wait_valid d t 0 = wait_valid d (t + k) (0 + k)"
    by (intro wait_valid_skip) simp_all
  with assms(2) show ?thesis
    by (simp add: wait_valid_stop)
qed

lemma drain_valid_low: "\<not> io_outputValid (d t) \<Longrightarrow> drain_valid d t wait_cycles = t"
  by (subst drain_valid.simps) simp

lemma drive_transaction_timeout:
  assumes "\<And>k. k < max_cycles \<Longrightarrow> \<not> io_outputValid (d (drain_valid d (Suc (now env)) 0 + k))"
  shows "drive_transaction d env txn =
     (drv_log ERROR (Msg_TIMEOUT_waiting_for_outputValid txn)
        (env\<lparr>now := drain_valid d (Suc (now env)) 0 + max_cycles\<rparr>), txn)"
  using wait_valid_timeout [of d "drain_valid d (Suc (now env)) 0"] assms
  by (simp add: drive_transaction_def Let_def)

lemma drive_transaction_success:
  assumes "k < max_cycles" and "io_outputValid (d (drain_valid d (Suc (now env)) 0 + k))"
    and "\<And>j. j < k \<Longrightarrow> \<not> io_outputValid (d (drain_valid d (Suc (now env)) 0 + j))"
  shows "drive_transaction d env txn =
     (drv_log INFO (Msg_Transaction_complete k (value1 txn) (value2 txn)
          (io_outputGCD (d (drain_valid d (Suc (now env)) 0 + k))))
        (env\<lparr>now := drain_valid d (Suc (now env)) 0 + k\<rparr>),
      txn\<lparr>outputGCD := io_outputGCD (d (drain_valid d (Suc (now env)) 0 + k)),
          outputValid := True\<rparr>)"
  using wait_valid_success [of k d "drain_valid d (Suc (now env)) 0"] assms
  by (simp add: drive_transaction_def Let_def)

lemma drive_transaction_never_valid:
  assumes "\<And>t. \<not> io_outputValid (d t)"
  shows "drive_transaction d env txn =
     (drv_log ERROR (Msg_TIMEOUT_waiting_for_outputValid txn)
        (env\<lparr>now := now env + 1001\<rparr>), txn)"
proof -
  have "drain_valid d (Suc (now env)) 0 = Suc (now env)"
    by (simp add: drain_valid_low assms)
  with drive_transaction_timeout [of d env txn] assms show ?thesis
    by (simp add: max_cycles_def)
qed

lemma driver_loop_never_valid:
  assumes "\<And>t. \<not> io_outputValid (d t)"
  shows "driver_loop d env items =
     env\<lparr>now := now env + 1001 * length items,
         drv_logger := drv_logger env @
           concat (map (\<lambda>txn. [(INFO, Msg_Driver_received txn),
                                (ERROR, Msg_TIMEOUT_waiting_for_outputValid txn)]) items),
         ap_written := ap_written env @ items,
         scoreboard := foldl GCDScoreboard_write (scoreboard env) items,
         coverage := foldl GCDCoverage_write (coverage env) items\<rparr>"
proof (induction items arbitrary: env)
  case Nil
  show ?case by simp
next
  case (Cons txn items)
  show ?case
    by (simp only: driver_loop_step Cons.IH drive_transaction_never_valid [OF assms])
       (simp add: drv_log_def ap_write_def)
qed


lemma wait_valid_success_iff:
  "(snd (wait_valid d t 0) < max_cycles) = (\<exists>k<max_cycles. io_outputValid (d (t + k)))"
proof (cases "\<exists>k<max_cycles. io_outputValid (d (t + k))")
  case True
  define k where "k = (LEAST k. io_outputValid (d (t + k)))"
  from True obtain k0 where k0: "k0 < max_cycles" "io_outputValid (d (t + k0))"
    by blast
  from k0(2) have "io_outputValid (d (t + k))"
    unfolding k_def by (rule LeastI)
  moreover have "k \<le> k0"
    unfolding k_def using k0(2) by (rule Least_le)
  moreover have "\<not> io_outputValid (d (t + j))" if "j < k" for j
    using that not_less_Least unfolding k_def by blast
  ultimately have "wait_valid d t 0 = (t + k, k)" and "k < max_cycles"
    using k0(1) by (simp_all add: wait_valid_success)
  with True show ?thesis
    by simp
next
  case False
  then have "wait_valid d t 0 = (t + max_cycles, max_cycles)"
    by (intro wait_valid_timeout) blast
  with False show ?thesis
    by simp
qed

text \<open>
  C3. Against a design that never asserts result-valid, the wait loop of
  \<^verbatim>\<open>drive_transaction\<close> ends after exactly 1000 edges with \<^verbatim>\<open>cycles = 1000\<close>;
  \<^verbatim>\<open>drive_transaction\<close> takes 1001 edges, logs the timeout as an error and returns the
  transaction as it was, so that an item fresh from a sequence keeps \<open>outputValid = False\<close>
  and \<open>outputGCD = 0\<close>. The run goes on: the run phase over any items writes every one of
  them, unchanged and in order, to the analysis port and so to the scoreboard and the
  coverage collector, with one timeout logged for each.
\<close>

theorem driver_timeout_is_bounded_and_not_fatal:
  assumes "\<forall>t. \<not> io_outputValid (d t)"
  shows "wait_valid d t 0 = (t + 1000, 1000)
    \<and> drive_transaction d env txn =
        (drv_log ERROR (Msg_TIMEOUT_waiting_for_outputValid txn) (env\<lparr>now := now env + 1001\<rparr>),
         txn)
    \<and> outputValid (snd (drive_transaction d env (directed_item (a, b)))) = False
    \<and> outputGCD (snd (drive_transaction d env (directed_item (a, b)))) = 0
    \<and> GCDDriver_run_phase d GCDEnv_init items =
        GCDEnv_init\<lparr>now := 6 + 1001 * length items,
          drv_logger := [(INFO, Msg_Resetting_DUT), (INFO, Msg_Reset_complete)] @
            concat (map (\<lambda>txn. [(INFO, Msg_Driver_received txn),
                                 (ERROR, Msg_TIMEOUT_waiting_for_outputValid txn)]) items),
          ap_written := items,
          scoreboard := foldl GCDScoreboard_write GCDScoreboard_init items,
          coverage := foldl GCDCoverage_write GCDCoverage_init items\<rparr>"
proof -
  from assms have never: "\<not> io_outputValid (d t)" for t
    by simp
  have w: "wait_valid d t 0 = (t + 1000, 1000)"
    using wait_valid_timeout [of d t] never by (simp add: max_cycles_def)
  have dr: "drive_transaction d env txn =
      (drv_log ERROR (Msg_TIMEOUT_waiting_for_outputValid txn) (env\<lparr>now := now env + 1001\<rparr>),
       txn)" for env txn
    using never by (rule drive_transaction_never_valid)
  have fresh: "outputValid (snd (drive_transaction d env (directed_item (a, b)))) = False
    \<and> outputGCD (snd (drive_transaction d env (directed_item (a, b)))) = 0"
    by (simp add: dr directed_item_def GCDTransaction_init_def)
  have run: "GCDDriver_run_phase d GCDEnv_init items =
        GCDEnv_init\<lparr>now := 6 + 1001 * length items,
          drv_logger := [(INFO, Msg_Resetting_DUT), (INFO, Msg_Reset_complete)] @
            concat (map (\<lambda>txn. [(INFO, Msg_Driver_received txn),
                                 (ERROR, Msg_TIMEOUT_waiting_for_outputValid txn)]) items),
          ap_written := items,
          scoreboard := foldl GCDScoreboard_write GCDScoreboard_init items,
          coverage := foldl GCDCoverage_write GCDCoverage_init items\<rparr>"
    unfolding GCDDriver_run_phase_def driver_loop_never_valid [of d, OF never]
    by (simp add: reset_dut_def drv_log_def GCDEnv_init_def Let_def)
  from w dr fresh run show ?thesis
    by blast
qed

text \<open>The theorem at the stub that never answers, over two directed items.\<close>

theorem driver_timeout_is_bounded_and_not_fatal_witness:
  "\<not> io_outputValid (never_valid_dut 0)
   \<and> wait_valid never_valid_dut 7 0 = (1007, 1000)
   \<and> ap_written (GCDDriver_run_phase never_valid_dut GCDEnv_init
        [directed_item (48, 18), directed_item (17, 19)]) =
        [directed_item (48, 18), directed_item (17, 19)]
   \<and> now (GCDDriver_run_phase never_valid_dut GCDEnv_init
        [directed_item (48, 18), directed_item (17, 19)]) = 2008
   \<and> outputValid (directed_item (17, 19)) = False"
proof -
  have h: "\<forall>t. \<not> io_outputValid (never_valid_dut t)"
    by (simp add: never_valid_dut_def)
  note r = driver_timeout_is_bounded_and_not_fatal [OF h, of 7 GCDEnv_init "directed_item (48, 18)" 17 19
        "[directed_item (48, 18), directed_item (17, 19)]"]
  from r have w: "wait_valid never_valid_dut 7 0 = (1007, 1000)"
    by simp
  from r have run: "GCDDriver_run_phase never_valid_dut GCDEnv_init
        [directed_item (48, 18), directed_item (17, 19)] =
      GCDEnv_init\<lparr>now := 6 + 1001 * length [directed_item (48, 18), directed_item (17, 19)],
          drv_logger := [(INFO, Msg_Resetting_DUT), (INFO, Msg_Reset_complete)] @
            concat (map (\<lambda>txn. [(INFO, Msg_Driver_received txn),
                                 (ERROR, Msg_TIMEOUT_waiting_for_outputValid txn)])
                      [directed_item (48, 18), directed_item (17, 19)]),
          ap_written := [directed_item (48, 18), directed_item (17, 19)],
          scoreboard := foldl GCDScoreboard_write GCDScoreboard_init
                          [directed_item (48, 18), directed_item (17, 19)],
          coverage := foldl GCDCoverage_write GCDCoverage_init
                          [directed_item (48, 18), directed_item (17, 19)]\<rparr>"
    by blast
  have "outputValid (directed_item (17, 19)) = False"
    by (simp add: directed_item_def GCDTransaction_init_def)
  with h w show ?thesis
    by (simp add: run)
qed

text \<open>
  C9. When result-valid stays low for the 1000 samples of the wait loop and is high at
  the edge at which \<^verbatim>\<open>cycles\<close> reaches 1000, the loop ends there with
  \<^verbatim>\<open>cycles = 1000\<close> and \<^verbatim>\<open>drive_transaction\<close> takes the timeout branch: it logs the
  error and returns the transaction with its output and its valid flag as they were,
  although result-valid reads high at the edge where the driver stands. The loop ends
  with \<^verbatim>\<open>cycles\<close> below the bound, which is the test of the success branch, exactly
  when result-valid is high at one of the first 1000 samples.
\<close>

theorem valid_on_the_bounding_edge_is_a_timeout:
  assumes "t2 = drain_valid d (Suc (now env)) 0"
    and "\<forall>k<1000. \<not> io_outputValid (d (t2 + k))"
    and "io_outputValid (d (t2 + 1000))"
  shows "wait_valid d t2 0 = (t2 + 1000, 1000)
    \<and> drive_transaction d env txn =
        (drv_log ERROR (Msg_TIMEOUT_waiting_for_outputValid txn) (env\<lparr>now := t2 + 1000\<rparr>), txn)
    \<and> io_outputValid (d (now (fst (drive_transaction d env txn))))
    \<and> outputGCD (snd (drive_transaction d env txn)) = outputGCD txn
    \<and> outputValid (snd (drive_transaction d env txn)) = outputValid txn
    \<and> (snd (wait_valid d t 0) < max_cycles) = (\<exists>k<1000. io_outputValid (d (t + k)))"
proof -
  from assms(2) have low: "\<not> io_outputValid (d (t2 + k))" if "k < max_cycles" for k
    using that by (simp add: max_cycles_def)
  have w: "wait_valid d t2 0 = (t2 + 1000, 1000)"
    using wait_valid_timeout [of d t2] low by (simp add: max_cycles_def)
  have dr: "drive_transaction d env txn =
        (drv_log ERROR (Msg_TIMEOUT_waiting_for_outputValid txn) (env\<lparr>now := t2 + 1000\<rparr>), txn)"
    using drive_transaction_timeout [of d env txn] low
    by (simp add: assms(1) max_cycles_def)
  have s: "(snd (wait_valid d t 0) < max_cycles) = (\<exists>k<1000. io_outputValid (d (t + k)))"
    by (simp add: wait_valid_success_iff) (simp add: max_cycles_def)
  from w dr s assms(3) show ?thesis
    by simp
qed

text \<open>The theorem at the stub that answers from the edge 1001 on.\<close>

theorem valid_on_the_bounding_edge_is_a_timeout_witness:
  "\<not> io_outputValid (late_valid_dut 1000)
   \<and> io_outputValid (late_valid_dut 1001)
   \<and> drive_transaction late_valid_dut GCDEnv_init (directed_item (48, 18)) =
        (drv_log ERROR (Msg_TIMEOUT_waiting_for_outputValid (directed_item (48, 18)))
           (GCDEnv_init\<lparr>now := 1001\<rparr>), directed_item (48, 18))
   \<and> outputValid (snd (drive_transaction late_valid_dut GCDEnv_init (directed_item (48, 18)))) =
        False"
proof -
  have t2: "1 = drain_valid late_valid_dut (Suc (now GCDEnv_init)) 0"
    by (simp add: drain_valid_low late_valid_dut_def GCDEnv_init_def)
  have low: "\<forall>k<1000. \<not> io_outputValid (late_valid_dut (1 + k))"
    by (simp add: late_valid_dut_def)
  have high: "io_outputValid (late_valid_dut (1 + 1000))"
    by (simp add: late_valid_dut_def)
  note r = valid_on_the_bounding_edge_is_a_timeout [OF t2 low high, of "directed_item (48, 18)" 0]
  from r have dr: "drive_transaction late_valid_dut GCDEnv_init (directed_item (48, 18)) =
        (drv_log ERROR (Msg_TIMEOUT_waiting_for_outputValid (directed_item (48, 18)))
           (GCDEnv_init\<lparr>now := 1001\<rparr>), directed_item (48, 18))"
    by simp
  have "\<not> io_outputValid (late_valid_dut 1000)" and "io_outputValid (late_valid_dut 1001)"
    and "outputValid (directed_item (48, 18)) = False"
    by (simp_all add: late_valid_dut_def directed_item_def GCDTransaction_init_def)
  then show ?thesis
    by (simp add: dr)
qed

section \<open>The monitor\<close>

lemma mon_wait_valid_stop:
  "io_outputValid (d t) \<or> mon_max_cycles \<le> cycles \<Longrightarrow>
     mon_wait_valid d n_edges t cycles = Some (t, cycles)"
  by (subst mon_wait_valid.simps) auto

lemma mon_wait_valid_skip:
  "(\<And>k. k < m \<Longrightarrow> \<not> io_outputValid (d (t + k))) \<Longrightarrow> cycles + m \<le> mon_max_cycles \<Longrightarrow>
   t + m \<le> n_edges \<Longrightarrow>
     mon_wait_valid d n_edges t cycles = mon_wait_valid d n_edges (t + m) (cycles + m)"
proof (induction m arbitrary: t cycles)
  case 0
  show ?case by simp
next
  case (Suc m)
  from Suc.prems(1) [of 0] have low: "\<not> io_outputValid (d t)"
    by simp
  from Suc.prems(2,3) have lt: "cycles < mon_max_cycles" "t < n_edges"
    by simp_all
  have "mon_wait_valid d n_edges (Suc t) (Suc cycles) =
      mon_wait_valid d n_edges (Suc t + m) (Suc cycles + m)"
  proof (rule Suc.IH)
    fix k assume "k < m"
    then show "\<not> io_outputValid (d (Suc t + k))"
      using Suc.prems(1) [of "Suc k"] by simp
  next
    from Suc.prems(2) show "Suc cycles + m \<le> mon_max_cycles"
      by simp
  next
    from Suc.prems(3) show "Suc t + m \<le> n_edges"
      by simp
  qed
  with low lt show ?case
    by (subst mon_wait_valid.simps) simp
qed

text \<open>What a finished wait of the monitor says about the pins.\<close>

lemma mon_wait_valid_Some:
  "mon_wait_valid d n_edges t cycles = Some (t', cycles') \<Longrightarrow>
     t \<le> t' \<and> cycles + (t' - t) = cycles' \<and>
     list_all (\<lambda>j. \<not> io_outputValid (d j)) [t..<t'] \<and>
     (cycles' < mon_max_cycles \<longrightarrow> io_outputValid (d t'))"
proof (induction d n_edges t cycles rule: mon_wait_valid.induct)
  case (1 d n_edges t cycles)
  note unfold = mon_wait_valid.simps [of d n_edges t cycles]
  show ?case
  proof (cases "\<not> io_outputValid (d t) \<and> cycles < mon_max_cycles")
    case True
    with "1.prems" have lt: "t < n_edges"
      by (simp add: unfold split: if_splits)
    with True "1.prems" have step:
      "mon_wait_valid d n_edges (Suc t) (Suc cycles) = Some (t', cycles')"
      by (simp add: unfold)
    note ih = "1.IH" [OF True lt step]
    from ih have "Suc t \<le> t'"
      by simp
    then have "[t..<t'] = t # [Suc t..<t']"
      by (simp add: upt_conv_Cons)
    with ih True have c: "list_all (\<lambda>j. \<not> io_outputValid (d j)) [t..<t']"
      by simp
    from ih have a: "t \<le> t'" and b: "cycles + (t' - t) = cycles'"
      by arith+
    from ih have e: "cycles' < mon_max_cycles \<longrightarrow> io_outputValid (d t')"
      by simp
    from a b c e show ?thesis
      by blast
  next
    case False
    with "1.prems" show ?thesis
      by (auto simp add: unfold split: if_splits)
  qed
qed

lemma run_phase_idle:
  assumes "t < n_edges" and "\<not> io_loadingValues (d (Suc t))"
  shows "GCDMonitor_run_phase d n_edges t mon = GCDMonitor_run_phase d n_edges (Suc t) mon"
  using assms by (subst GCDMonitor_run_phase.simps) (simp add: Let_def)

lemma run_phase_end:
  "n_edges \<le> t \<Longrightarrow> GCDMonitor_run_phase d n_edges t mon = mon"
  by (subst GCDMonitor_run_phase.simps) simp

lemma run_phase_timeout:
  assumes "t < n_edges" and "io_loadingValues (d (Suc t))"
    and low: "\<And>k. k < 1000 \<Longrightarrow> \<not> io_outputValid (d (Suc t + k))"
    and "Suc t + 1000 \<le> n_edges"
  shows "GCDMonitor_run_phase d n_edges t mon =
     GCDMonitor_run_phase d n_edges (Suc t + 1000)
       (mon\<lparr>mon_logger := mon_logger mon @
          [(WARNING, Msg_Monitor_timeout (io_value1 (d (Suc t))) (io_value2 (d (Suc t))))]\<rparr>)"
proof -
  have "mon_wait_valid d n_edges (Suc t) 0 =
      mon_wait_valid d n_edges (Suc t + 1000) (0 + 1000)"
    using low assms(4) by (intro mon_wait_valid_skip) (simp_all add: mon_max_cycles_def)
  then have "mon_wait_valid d n_edges (Suc t) 0 = Some (Suc t + 1000, 1000)"
    by (simp add: mon_wait_valid_stop mon_max_cycles_def)
  with assms(1,2) show ?thesis
    by (subst GCDMonitor_run_phase.simps)
       (simp add: Let_def mon_max_cycles_def GCDTransaction_init_def)
qed

lemma run_phase_success:
  assumes "t < n_edges" and "io_loadingValues (d (Suc t))"
    and "k < 1000" and "io_outputValid (d (Suc t + k))"
    and low: "\<And>j. j < k \<Longrightarrow> \<not> io_outputValid (d (Suc t + j))"
    and "Suc t + k \<le> n_edges"
  shows "GCDMonitor_run_phase d n_edges t mon =
     GCDMonitor_run_phase d n_edges (Suc t + k)
       (mon\<lparr>mon_logger := mon_logger mon @
          [(DEBUG, Msg_Monitor_observed
             \<lparr>value1 = io_value1 (d (Suc t)), value2 = io_value2 (d (Suc t)),
              loadingValues = True, outputGCD = io_outputGCD (d (Suc t + k)),
              outputValid = True\<rparr>)],
         mon_ap_written := mon_ap_written mon @
          [\<lparr>value1 = io_value1 (d (Suc t)), value2 = io_value2 (d (Suc t)),
            loadingValues = True, outputGCD = io_outputGCD (d (Suc t + k)),
            outputValid = True\<rparr>]\<rparr>)"
proof -
  have "mon_wait_valid d n_edges (Suc t) 0 = mon_wait_valid d n_edges (Suc t + k) (0 + k)"
    using low assms(3,6) by (intro mon_wait_valid_skip) (simp_all add: mon_max_cycles_def)
  with assms(4) have "mon_wait_valid d n_edges (Suc t) 0 = Some (Suc t + k, k)"
    by (simp add: mon_wait_valid_stop)
  with assms(1,2,3,4) show ?thesis
    by (subst GCDMonitor_run_phase.simps)
       (simp add: Let_def mon_max_cycles_def GCDTransaction_init_def)
qed

lemma run_phase_published:
  "\<exists>new. mon_ap_written (GCDMonitor_run_phase d n_edges t mon) = mon_ap_written mon @ new \<and>
     (\<forall>txn\<in>set new. \<exists>t0 t1. captured_at d t0 t1 txn)"
proof (induction d n_edges t mon rule: GCDMonitor_run_phase.induct)
  case (1 d n_edges t mon)
  note unfold = GCDMonitor_run_phase.simps [of d n_edges t mon]
  let ?P = "\<lambda>new. \<forall>txn\<in>set new. \<exists>t0 t1. captured_at d t0 t1 txn"
  let ?txn = "GCDTransaction_init\<lparr>value1 := io_value1 (d (Suc t)),
      value2 := io_value2 (d (Suc t)), loadingValues := True\<rparr>"
  show ?case
  proof (cases "t < n_edges")
    case False
    then have "GCDMonitor_run_phase d n_edges t mon = mon"
      by (simp add: unfold)
    then show ?thesis by simp
  next
    case lt: True
    show ?thesis
    proof (cases "io_loadingValues (d (Suc t))")
      case False
      with lt have eq: "GCDMonitor_run_phase d n_edges t mon =
          GCDMonitor_run_phase d n_edges (Suc t) mon"
        by (rule run_phase_idle)
      from "1.IH"(3) [OF lt refl False] show ?thesis
        by (simp only: eq)
    next
      case load: True
      show ?thesis
      proof (cases "mon_wait_valid d n_edges (Suc t) 0")
        case None
        with lt load have "GCDMonitor_run_phase d n_edges t mon = mon"
          by (simp add: unfold Let_def)
        then show ?thesis by simp
      next
        case (Some r)
        obtain t2 cycles where r: "r = (t2, cycles)"
          by (cases r)
        from Some r have w: "mon_wait_valid d n_edges (Suc t) 0 = Some (t2, cycles)"
          by simp
        from mon_wait_valid_Some [OF w]
        have facts: "Suc t \<le> t2" "t2 - Suc t = cycles"
          "list_all (\<lambda>j. \<not> io_outputValid (d j)) [Suc t..<t2]"
          "cycles < mon_max_cycles \<longrightarrow> io_outputValid (d t2)"
          by simp_all
        show ?thesis
        proof (cases "cycles < mon_max_cycles")
          case True
          let ?txn' = "?txn\<lparr>outputGCD := io_outputGCD (d t2), outputValid := io_outputValid (d t2)\<rparr>"
          let ?mon' = "mon\<lparr>mon_logger := mon_logger mon @ [(DEBUG, Msg_Monitor_observed ?txn')],
                           mon_ap_written := mon_ap_written mon @ [?txn']\<rparr>"
          from lt load w True have eq: "GCDMonitor_run_phase d n_edges t mon =
              GCDMonitor_run_phase d n_edges t2 ?mon'"
            by (simp add: unfold Let_def)
          from "1.IH"(1) [OF lt refl load refl w refl True refl]
          obtain new where new:
            "mon_ap_written (GCDMonitor_run_phase d n_edges t2 ?mon') = mon_ap_written ?mon' @ new"
            "?P new"
            by blast
          from facts True load have "captured_at d (Suc t) t2 ?txn'"
            by (simp add: captured_at_def GCDTransaction_init_def mon_max_cycles_def)
          with new have "mon_ap_written (GCDMonitor_run_phase d n_edges t mon) =
              mon_ap_written mon @ (?txn' # new) \<and> ?P (?txn' # new)"
            by (simp only: eq) auto
          then show ?thesis by blast
        next
          case False
          let ?mon' = "mon\<lparr>mon_logger := mon_logger mon @
              [(WARNING, Msg_Monitor_timeout (value1 ?txn) (value2 ?txn))]\<rparr>"
          from lt load w False have eq: "GCDMonitor_run_phase d n_edges t mon =
              GCDMonitor_run_phase d n_edges t2 ?mon'"
            by (simp add: unfold Let_def)
          from "1.IH"(2) [OF lt refl load refl w refl False] show ?thesis
            by (simp only: eq) simp
        qed
      qed
    qed
  qed
qed


text \<open>
  C6. The monitor at an edge with the load strobe set. When result-valid stays low for
  the 1000 samples of its wait, the monitor logs a warning and goes on from the edge at
  which the wait ended with its port as it was: in a simulation that ends at that edge
  the whole effect is the warning. When result-valid is first high at sample \<open>k < 1000\<close>,
  the monitor captures the output at that edge, logs the transaction and writes it to its
  port. The bound is 1000 for the monitor as for the driver.
\<close>

theorem monitor_drops_a_timed_out_transaction:
  assumes "t < n_edges" and "io_loadingValues (d (Suc t))"
  shows "((\<forall>k<1000. \<not> io_outputValid (d (Suc t + k))) \<and> Suc t + 1000 \<le> n_edges \<longrightarrow>
          GCDMonitor_run_phase d n_edges t mon =
            GCDMonitor_run_phase d n_edges (Suc t + 1000)
              (mon\<lparr>mon_logger := mon_logger mon @
                 [(WARNING, Msg_Monitor_timeout (io_value1 (d (Suc t))) (io_value2 (d (Suc t))))]\<rparr>)
          \<and> GCDMonitor_run_phase d (Suc t + 1000) t mon =
              mon\<lparr>mon_logger := mon_logger mon @
                 [(WARNING, Msg_Monitor_timeout (io_value1 (d (Suc t))) (io_value2 (d (Suc t))))]\<rparr>)
    \<and> (\<forall>k<1000. io_outputValid (d (Suc t + k)) \<and> (\<forall>j<k. \<not> io_outputValid (d (Suc t + j))) \<and>
          Suc t + k \<le> n_edges \<longrightarrow>
          GCDMonitor_run_phase d n_edges t mon =
            GCDMonitor_run_phase d n_edges (Suc t + k)
              (mon\<lparr>mon_logger := mon_logger mon @
                 [(DEBUG, Msg_Monitor_observed
                    \<lparr>value1 = io_value1 (d (Suc t)), value2 = io_value2 (d (Suc t)),
                     loadingValues = True, outputGCD = io_outputGCD (d (Suc t + k)),
                     outputValid = True\<rparr>)],
                mon_ap_written := mon_ap_written mon @
                 [\<lparr>value1 = io_value1 (d (Suc t)), value2 = io_value2 (d (Suc t)),
                   loadingValues = True, outputGCD = io_outputGCD (d (Suc t + k)),
                   outputValid = True\<rparr>]\<rparr>))
    \<and> mon_max_cycles = 1000 \<and> max_cycles = 1000"
proof -
  let ?warned = "mon\<lparr>mon_logger := mon_logger mon @
      [(WARNING, Msg_Monitor_timeout (io_value1 (d (Suc t))) (io_value2 (d (Suc t))))]\<rparr>"
  have a: "GCDMonitor_run_phase d n_edges t mon =
      GCDMonitor_run_phase d n_edges (Suc t + 1000) ?warned"
    if "\<forall>k<1000. \<not> io_outputValid (d (Suc t + k))" and "Suc t + 1000 \<le> n_edges"
    using assms that by (intro run_phase_timeout) simp_all
  have b: "GCDMonitor_run_phase d (Suc t + 1000) t mon = ?warned"
    if low: "\<forall>k<1000. \<not> io_outputValid (d (Suc t + k))"
  proof -
    have "GCDMonitor_run_phase d (Suc t + 1000) t mon =
        GCDMonitor_run_phase d (Suc t + 1000) (Suc t + 1000) ?warned"
      using assms(2) low by (intro run_phase_timeout) simp_all
    then show ?thesis
      by (simp add: run_phase_end)
  qed
  have c: "GCDMonitor_run_phase d n_edges t mon =
      GCDMonitor_run_phase d n_edges (Suc t + k)
        (mon\<lparr>mon_logger := mon_logger mon @
           [(DEBUG, Msg_Monitor_observed
              \<lparr>value1 = io_value1 (d (Suc t)), value2 = io_value2 (d (Suc t)),
               loadingValues = True, outputGCD = io_outputGCD (d (Suc t + k)),
               outputValid = True\<rparr>)],
          mon_ap_written := mon_ap_written mon @
           [\<lparr>value1 = io_value1 (d (Suc t)), value2 = io_value2 (d (Suc t)),
             loadingValues = True, outputGCD = io_outputGCD (d (Suc t + k)),
             outputValid = True\<rparr>]\<rparr>)"
    if "k < 1000" and "io_outputValid (d (Suc t + k))"
      and "\<forall>j<k. \<not> io_outputValid (d (Suc t + j))" and "Suc t + k \<le> n_edges" for k
    using assms that by (intro run_phase_success) simp_all
  from a b c show ?thesis
    by (simp add: mon_max_cycles_def max_cycles_def)
qed

text \<open>The theorem at the stub that never answers and at the one that answers.\<close>

theorem monitor_drops_a_timed_out_transaction_witness:
  "GCDMonitor_run_phase unanswered_dut 1001 0 GCDMonitor_init =
     GCDMonitor_init\<lparr>mon_logger := [(WARNING, Msg_Monitor_timeout 48 18)]\<rparr>
   \<and> mon_ap_written (GCDMonitor_run_phase unanswered_dut 1001 0 GCDMonitor_init) = []
   \<and> mon_ap_written (GCDMonitor_run_phase answered_dut 5 0 GCDMonitor_init) =
       [\<lparr>value1 = 48, value2 = 18, loadingValues = True, outputGCD = 6, outputValid = True\<rparr>]"
proof -
  have lt: "(0::nat) < 1001" "(0::nat) < 5"
    by simp_all
  have l: "io_loadingValues (unanswered_dut (Suc 0))" "io_loadingValues (answered_dut (Suc 0))"
    by (simp_all add: unanswered_dut_def answered_dut_def)
  have low: "(\<forall>k<1000. \<not> io_outputValid (unanswered_dut (Suc 0 + k))) \<and> Suc 0 + 1000 \<le> 1001"
    by (simp add: unanswered_dut_def)
  note timeout = monitor_drops_a_timed_out_transaction [where t = 0 and n_edges = 1001 and d = unanswered_dut and mon = GCDMonitor_init,
      OF lt(1) l(1), THEN conjunct1, rule_format,
      OF low, THEN conjunct2]
  then have u: "GCDMonitor_run_phase unanswered_dut 1001 0 GCDMonitor_init =
     GCDMonitor_init\<lparr>mon_logger := [(WARNING, Msg_Monitor_timeout 48 18)]\<rparr>"
    by (simp add: unanswered_dut_def GCDMonitor_init_def)
  have k: "(4::nat) < 1000"
    by simp
  have high: "io_outputValid (answered_dut (Suc 0 + 4)) \<and>
      (\<forall>j<4. \<not> io_outputValid (answered_dut (Suc 0 + j))) \<and> Suc 0 + 4 \<le> 5"
    by (simp add: answered_dut_def)
  note success = monitor_drops_a_timed_out_transaction [where t = 0 and n_edges = 5 and d = answered_dut and mon = GCDMonitor_init,
      OF lt(2) l(2), THEN conjunct2, THEN conjunct1,
      rule_format, OF k high]
  have a: "mon_ap_written (GCDMonitor_run_phase answered_dut 5 0 GCDMonitor_init) =
       [\<lparr>value1 = 48, value2 = 18, loadingValues = True, outputGCD = 6, outputValid = True\<rparr>]"
    by (subst success) (simp add: run_phase_end answered_dut_def GCDMonitor_init_def)
  from u a show ?thesis
    by (simp add: GCDMonitor_init_def)
qed

text \<open>
  C10. Every transaction on the monitor's port has \<open>outputValid = True\<close>, and its
  \<open>outputGCD\<close> is the output of the design at an edge \<open>t1\<close> with result-valid high: the
  first such edge from the edge \<open>t0\<close> at which the monitor saw the load strobe and took the
  operands.
\<close>

theorem monitor_publishes_only_valid_results:
  "\<forall>txn\<in>set (mon_ap_written (GCDMonitor_run_phase d n_edges t GCDMonitor_init)).
     outputValid txn \<and>
     (\<exists>t0 t1. io_outputValid (d t1) \<and> outputGCD txn = io_outputGCD (d t1) \<and>
        captured_at d t0 t1 txn)"
proof -
  from run_phase_published [of d n_edges t GCDMonitor_init]
  have "\<forall>txn\<in>set (mon_ap_written (GCDMonitor_run_phase d n_edges t GCDMonitor_init)).
      \<exists>t0 t1. captured_at d t0 t1 txn"
    by (simp add: GCDMonitor_init_def)
  then show ?thesis
    by (fastforce simp: captured_at_def)
qed

text \<open>The theorem at the stub that answers 6 at the edge 5.\<close>

theorem monitor_publishes_only_valid_results_witness:
  "mon_ap_written (GCDMonitor_run_phase answered_dut 5 0 GCDMonitor_init) =
       [\<lparr>value1 = 48, value2 = 18, loadingValues = True, outputGCD = 6, outputValid = True\<rparr>]
   \<and> outputValid (hd (mon_ap_written (GCDMonitor_run_phase answered_dut 5 0 GCDMonitor_init)))
   \<and> io_outputGCD (answered_dut 5) = 6 \<and> io_outputValid (answered_dut 5)"
proof -
  have "io_loadingValues (answered_dut (Suc 0))" "(4::nat) < 1000"
    "io_outputValid (answered_dut (Suc 0 + 4))"
    "\<And>j. j < 4 \<Longrightarrow> \<not> io_outputValid (answered_dut (Suc 0 + j))"
    by (simp_all add: answered_dut_def)
  then have "GCDMonitor_run_phase answered_dut 5 0 GCDMonitor_init =
      GCDMonitor_run_phase answered_dut 5 (Suc 0 + 4)
        (GCDMonitor_init\<lparr>mon_logger := mon_logger GCDMonitor_init @
           [(DEBUG, Msg_Monitor_observed
              \<lparr>value1 = io_value1 (answered_dut (Suc 0)), value2 = io_value2 (answered_dut (Suc 0)),
               loadingValues = True, outputGCD = io_outputGCD (answered_dut (Suc 0 + 4)),
               outputValid = True\<rparr>)],
          mon_ap_written := mon_ap_written GCDMonitor_init @
           [\<lparr>value1 = io_value1 (answered_dut (Suc 0)), value2 = io_value2 (answered_dut (Suc 0)),
             loadingValues = True, outputGCD = io_outputGCD (answered_dut (Suc 0 + 4)),
             outputValid = True\<rparr>]\<rparr>)"
    by (intro run_phase_success) simp_all
  then have a: "mon_ap_written (GCDMonitor_run_phase answered_dut 5 0 GCDMonitor_init) =
       [\<lparr>value1 = 48, value2 = 18, loadingValues = True, outputGCD = 6, outputValid = True\<rparr>]"
    by (simp add: run_phase_end answered_dut_def GCDMonitor_init_def)
  with monitor_publishes_only_valid_results [of answered_dut 5 0]
  have "outputValid (hd (mon_ap_written (GCDMonitor_run_phase answered_dut 5 0 GCDMonitor_init)))"
    by simp
  with a show ?thesis
    by (simp add: answered_dut_def)
qed


section \<open>The generation policies\<close>














section \<open>The rendezvous of the sequence and the driver\<close>

lemma run_phases_snoc:
  "run_phases p (es @ [e]) =
     (case run_phases p es of None \<Rightarrow> None | Some p' \<Rightarrow> next_phase p' e)"
  by (induction es arbitrary: p) (simp_all split: option.splits)

lemma started_snoc [simp]:
  "started (es @ [Ev_start_item x]) = started es @ [x]"
  "started (es @ [Ev_get_next_item x]) = started es"
  "started (es @ [Ev_ap_write x]) = started es"
  "started (es @ [Ev_item_done]) = started es"
  by (induction es rule: started.induct) simp_all

lemma pulled_snoc [simp]:
  "pulled (es @ [Ev_start_item x]) = pulled es"
  "pulled (es @ [Ev_get_next_item x]) = pulled es @ [x]"
  "pulled (es @ [Ev_ap_write x]) = pulled es"
  "pulled (es @ [Ev_item_done]) = pulled es"
  by (induction es rule: pulled.induct) simp_all

lemma rendezvous_inv_initial: "rendezvous_inv d items (initial items)"
  by (simp add: rendezvous_inv_def initial_def GCDDriver_run_phase_def)

lemma rendezvous_inv_step:
  assumes "step d s s'" and "rendezvous_inv d items s"
  shows "rendezvous_inv d items s'"
  using assms
proof (cases rule: step.cases)
  case (seq_start_item x xs)
  with assms(2) show ?thesis
    by (cases "drv s") (auto simp: rendezvous_inv_def run_phases_snoc)
next
  case (seq_finish_item x xs)
  with assms(2) show ?thesis
    by (auto simp: rendezvous_inv_def)
next
  case (seq_next x xs)
  with assms(2) show ?thesis
    by (auto simp: rendezvous_inv_def)
next
  case drv_reset_dut
  with assms(2) show ?thesis
    by (cases "pending s") (auto simp: rendezvous_inv_def)
next
  case (drv_get_next_item x)
  with assms(2) show ?thesis
    by (cases "seq s") (auto simp: rendezvous_inv_def run_phases_snoc)
next
  case (drv_drive_transaction x)
  with assms(2) show ?thesis
    by (cases "seq s"; cases "pending s")
       (auto simp: rendezvous_inv_def driver_loop_step simp del: driver_loop.simps)
next
  case (drv_ap_write x)
  with assms(2) show ?thesis
    by (cases "seq s"; cases "pending s") (auto simp: rendezvous_inv_def run_phases_snoc)
next
  case drv_item_done
  with assms(2) show ?thesis
    by (cases "seq s"; cases "pending s") (auto simp: rendezvous_inv_def run_phases_snoc)
qed

lemma rendezvous_inv_reachable:
  "(step d)\<^sup>*\<^sup>* (initial items) s \<Longrightarrow> rendezvous_inv d items s"
  by (induction rule: rtranclp_induct) (auto intro: rendezvous_inv_initial rendezvous_inv_step)

text \<open>A state from which no coroutine can go on is the end of the run.\<close>

lemma stuck_is_finished:
  assumes "rendezvous_inv d items s" and "\<And>s'. \<not> step d s s'"
  shows "seq s = Seq_loop [] \<and> pending s = None \<and> \<not> outstanding s \<and>
         drv s = Drv_get_next_item"
proof -
  from assms(1) have out: "outstanding s = busy (drv s)"
    unfolding rendezvous_inv_def by blast
  have drv: "drv s = Drv_get_next_item"
  proof (cases "drv s")
    case Drv_reset_dut
    then show ?thesis using step.drv_reset_dut [of s d] assms(2) by blast
  next
    case Drv_get_next_item
    then show ?thesis .
  next
    case (Drv_drive_transaction x)
    then show ?thesis using step.drv_drive_transaction [of s x d] assms(2) by blast
  next
    case (Drv_ap_write x)
    then show ?thesis using step.drv_ap_write [of s x d] assms(2) by blast
  next
    case Drv_item_done
    then show ?thesis using step.drv_item_done [of s d] assms(2) by blast
  qed
  with out have idle: "\<not> outstanding s"
    by simp
  have pend: "pending s = None"
  proof (cases "pending s")
    case None
    then show ?thesis .
  next
    case (Some x)
    with drv show ?thesis using step.drv_get_next_item [of s x d] assms(2) by blast
  qed
  have "seq s = Seq_loop []"
  proof (cases "seq s")
    case (Seq_loop xs)
    show ?thesis
    proof (cases xs)
      case Nil
      with Seq_loop show ?thesis by simp
    next
      case (Cons x xs')
      with Seq_loop pend show ?thesis using step.seq_start_item [of s x xs' d] assms(2) by blast
    qed
  next
    case (Seq_start_item x xs)
    with pend show ?thesis using step.seq_finish_item [of s x xs d] assms(2) by blast
  next
    case (Seq_finish_item x xs)
    with idle show ?thesis using step.seq_next [of s x xs d] assms(2) by blast
  qed
  with pend idle drv show ?thesis
    by simp
qed

text \<open>The run in which the sequence and the driver take turns, item after item.\<close>

lemma run_items:
  "(step d)\<^sup>*\<^sup>*
     \<lparr>seq = Seq_loop xs, pending = None, outstanding = False, drv = Drv_get_next_item,
      tb_env = e, trace = tr\<rparr>
     \<lparr>seq = Seq_loop [], pending = None, outstanding = False, drv = Drv_get_next_item,
      tb_env = driver_loop d e xs, trace = tr @ expected_trace d e xs\<rparr>"
proof (induction xs arbitrary: e tr)
  case Nil
  show ?case by simp
next
  case (Cons x xs)
  let ?r = "drive_transaction d (drv_log INFO (Msg_Driver_received x) e) x"
  let ?e3 = "ap_write (fst ?r) (snd ?r)"
  let ?s0 = "\<lparr>seq = Seq_loop (x # xs), pending = None, outstanding = False,
      drv = Drv_get_next_item, tb_env = e, trace = tr\<rparr>"
  let ?s1 = "\<lparr>seq = Seq_start_item x xs, pending = Some x, outstanding = False,
      drv = Drv_get_next_item, tb_env = e, trace = tr @ [Ev_start_item x]\<rparr>"
  let ?s2 = "\<lparr>seq = Seq_start_item x xs, pending = None, outstanding = True,
      drv = Drv_drive_transaction x, tb_env = e,
      trace = tr @ [Ev_start_item x, Ev_get_next_item x]\<rparr>"
  let ?s3 = "\<lparr>seq = Seq_start_item x xs, pending = None, outstanding = True,
      drv = Drv_ap_write (snd ?r), tb_env = fst ?r,
      trace = tr @ [Ev_start_item x, Ev_get_next_item x]\<rparr>"
  let ?s4 = "\<lparr>seq = Seq_start_item x xs, pending = None, outstanding = True,
      drv = Drv_item_done, tb_env = ?e3,
      trace = tr @ [Ev_start_item x, Ev_get_next_item x, Ev_ap_write (snd ?r)]\<rparr>"
  let ?s5 = "\<lparr>seq = Seq_start_item x xs, pending = None, outstanding = False,
      drv = Drv_get_next_item, tb_env = ?e3,
      trace = tr @ [Ev_start_item x, Ev_get_next_item x, Ev_ap_write (snd ?r), Ev_item_done]\<rparr>"
  let ?s6 = "\<lparr>seq = Seq_finish_item x xs, pending = None, outstanding = False,
      drv = Drv_get_next_item, tb_env = ?e3,
      trace = tr @ [Ev_start_item x, Ev_get_next_item x, Ev_ap_write (snd ?r), Ev_item_done]\<rparr>"
  let ?s7 = "\<lparr>seq = Seq_loop xs, pending = None, outstanding = False,
      drv = Drv_get_next_item, tb_env = ?e3,
      trace = tr @ [Ev_start_item x, Ev_get_next_item x, Ev_ap_write (snd ?r), Ev_item_done]\<rparr>"
  have "step d ?s0 ?s1"
    using step.seq_start_item [of ?s0 x xs d] by simp
  then have "(step d)\<^sup>*\<^sup>* ?s0 ?s1"
    by (rule r_into_rtranclp)
  also have "step d ?s1 ?s2"
    using step.drv_get_next_item [of ?s1 x d] by simp
  also have "step d ?s2 ?s3"
    using step.drv_drive_transaction [of ?s2 x d] by simp
  also have "step d ?s3 ?s4"
    using step.drv_ap_write [of ?s3 "snd ?r" d] by simp
  also have "step d ?s4 ?s5"
    using step.drv_item_done [of ?s4 d] by simp
  also have "step d ?s5 ?s6"
    using step.seq_finish_item [of ?s5 x xs d] by simp
  also have "step d ?s6 ?s7"
    using step.seq_next [of ?s6 x xs d] by simp
  finally have a: "(step d)\<^sup>*\<^sup>* ?s0 ?s7" .
  note b = Cons.IH [of ?e3
      "tr @ [Ev_start_item x, Ev_get_next_item x, Ev_ap_write (snd ?r), Ev_item_done]"]
  have e: "driver_loop d e (x # xs) = driver_loop d ?e3 xs"
    by (rule driver_loop_step)
  have t: "tr @ expected_trace d e (x # xs) =
      (tr @ [Ev_start_item x, Ev_get_next_item x, Ev_ap_write (snd ?r), Ev_item_done]) @
        expected_trace d ?e3 xs"
    by (simp add: Let_def)
  from rtranclp_trans [OF a b] show ?case
    by (simp only: e t)
qed

lemma complete_run:
  "(step d)\<^sup>*\<^sup>* (initial items)
     \<lparr>seq = Seq_loop [], pending = None, outstanding = False, drv = Drv_get_next_item,
      tb_env = GCDDriver_run_phase d GCDEnv_init items,
      trace = expected_trace d (reset_dut GCDEnv_init) items\<rparr>"
proof -
  have "step d (initial items)
     \<lparr>seq = Seq_loop items, pending = None, outstanding = False, drv = Drv_get_next_item,
      tb_env = reset_dut GCDEnv_init, trace = []\<rparr>"
    using step.drv_reset_dut [of "initial items" d] by (simp add: initial_def)
  then have "(step d)\<^sup>*\<^sup>* (initial items)
     \<lparr>seq = Seq_loop items, pending = None, outstanding = False, drv = Drv_get_next_item,
      tb_env = reset_dut GCDEnv_init, trace = []\<rparr>"
    by (rule r_into_rtranclp)
  from rtranclp_trans [OF this run_items [of d items "reset_dut GCDEnv_init" "[]"]]
  show ?thesis
    by (simp add: GCDDriver_run_phase_def)
qed

lemma finished_is_stuck:
  assumes "seq s = Seq_loop []" and "pending s = None" and "drv s = Drv_get_next_item"
  shows "\<not> step d s s'"
  using assms by (auto elim: step.cases)

text \<open>
  C2. In every state that the sequence and the driver can reach over any items, however
  the scheduler interleaves them: the trace is serial, so each item handed to
  \<^verbatim>\<open>start_item\<close> is the one that \<^verbatim>\<open>get_next_item\<close> returns next, the driver then
  writes to its port and calls \<^verbatim>\<open>item_done\<close>, and only after that is the next item
  handed over and pulled; the items pulled so far are the first items of the sequence in
  its order, as are the items handed over, which are at most one ahead, by the item in the
  slot. A state in which neither coroutine can go on has all items pulled, and its
  environment is the one that the driver's run phase computes over the list of items.
\<close>

theorem driver_pulls_in_production_order_one_at_a_time:
  assumes "(step d)\<^sup>*\<^sup>* (initial items) s"
  shows "serial (trace s)
    \<and> pulled (trace s) = take (length (pulled (trace s))) items
    \<and> started (trace s) = take (length (started (trace s))) items
    \<and> (started (trace s) = pulled (trace s) \<or>
        (\<exists>x. pending s = Some x \<and> started (trace s) = pulled (trace s) @ [x]))
    \<and> ((\<forall>s'. \<not> step d s s') \<longrightarrow>
          pulled (trace s) = items \<and> tb_env s = GCDDriver_run_phase d GCDEnv_init items)"
proof -
  from assms have inv: "rendezvous_inv d items s"
    by (rule rendezvous_inv_reachable)
  then have ser: "serial (trace s)"
    by (simp add: rendezvous_inv_def serial_def)
  from inv have p: "pulled (trace s) @ unpulled (pending s) (seq s) = items"
    and st: "started (trace s) @ todo (seq s) = items"
    and fin: "rest_of_run d (drv s) (tb_env s) (unpulled (pending s) (seq s)) =
        GCDDriver_run_phase d GCDEnv_init items"
    unfolding rendezvous_inv_def by blast+
  from p have p': "pulled (trace s) = take (length (pulled (trace s))) items"
    by (metis append_eq_conv_conj)
  from st have st': "started (trace s) = take (length (started (trace s))) items"
    by (metis append_eq_conv_conj)
  from p st have rel: "started (trace s) = pulled (trace s) \<or>
        (\<exists>x. pending s = Some x \<and> started (trace s) = pulled (trace s) @ [x])"
    by (cases "pending s") auto
  have complete: "pulled (trace s) = items \<and> tb_env s = GCDDriver_run_phase d GCDEnv_init items"
    if "\<forall>s'. \<not> step d s s'"
  proof -
    from stuck_is_finished [OF inv] that
    have "seq s = Seq_loop []" "pending s = None" "drv s = Drv_get_next_item"
      by simp_all
    with p fin show ?thesis
      by simp
  qed
  from ser p' st' rel complete show ?thesis
    by blast
qed


text \<open>
  The theorem at the end of the run over two directed items against the stub that never
  answers, where the driver publishes each item as it came.
\<close>

theorem driver_pulls_in_production_order_one_at_a_time_witness:
  "(step never_valid_dut)\<^sup>*\<^sup>* (initial [directed_item (48, 18), directed_item (17, 19)])
     \<lparr>seq = Seq_loop [], pending = None, outstanding = False, drv = Drv_get_next_item,
      tb_env = GCDDriver_run_phase never_valid_dut GCDEnv_init
              [directed_item (48, 18), directed_item (17, 19)],
      trace = [Ev_start_item (directed_item (48, 18)), Ev_get_next_item (directed_item (48, 18)),
               Ev_ap_write (directed_item (48, 18)), Ev_item_done,
               Ev_start_item (directed_item (17, 19)), Ev_get_next_item (directed_item (17, 19)),
               Ev_ap_write (directed_item (17, 19)), Ev_item_done]\<rparr>
   \<and> serial [Ev_start_item (directed_item (48, 18)), Ev_get_next_item (directed_item (48, 18)),
              Ev_ap_write (directed_item (48, 18)), Ev_item_done,
              Ev_start_item (directed_item (17, 19)), Ev_get_next_item (directed_item (17, 19)),
              Ev_ap_write (directed_item (17, 19)), Ev_item_done]
   \<and> pulled [Ev_start_item (directed_item (48, 18)), Ev_get_next_item (directed_item (48, 18)),
              Ev_ap_write (directed_item (48, 18)), Ev_item_done,
              Ev_start_item (directed_item (17, 19)), Ev_get_next_item (directed_item (17, 19)),
              Ev_ap_write (directed_item (17, 19)), Ev_item_done] =
       [directed_item (48, 18), directed_item (17, 19)]"
proof -
  let ?items = "[directed_item (48, 18), directed_item (17, 19)]"
  let ?tr = "[Ev_start_item (directed_item (48, 18)), Ev_get_next_item (directed_item (48, 18)),
               Ev_ap_write (directed_item (48, 18)), Ev_item_done,
               Ev_start_item (directed_item (17, 19)), Ev_get_next_item (directed_item (17, 19)),
               Ev_ap_write (directed_item (17, 19)), Ev_item_done]"
  let ?s = "\<lparr>seq = Seq_loop [], pending = None, outstanding = False, drv = Drv_get_next_item,
      tb_env = GCDDriver_run_phase never_valid_dut GCDEnv_init ?items, trace = ?tr\<rparr>"
  have never: "\<not> io_outputValid (never_valid_dut t)" for t
    by (simp add: never_valid_dut_def)
  have "expected_trace never_valid_dut (reset_dut GCDEnv_init) ?items = ?tr"
    by (simp add: drive_transaction_never_valid [OF never])
  with complete_run [of never_valid_dut ?items] have reach: "(step never_valid_dut)\<^sup>*\<^sup>* (initial ?items) ?s"
    by simp
  have stuck: "\<forall>s'. \<not> step never_valid_dut ?s s'"
    by (simp add: finished_is_stuck)
  from driver_pulls_in_production_order_one_at_a_time [OF reach] stuck have "serial (trace ?s)" and "pulled (trace ?s) = ?items"
    by blast+
  with reach show ?thesis
    by simp
qed


end
